theory Spec2Isabelle
  imports Complex_Main "HOL-Library.Sublist" "HOL-Library.Multiset"
begin

section \<open>JavaScript values and string primitives\<close>

text \<open>
  Strings are lists of characters. A field that may be \<^verbatim>\<open>null\<close> or \<^verbatim>\<open>undefined\<close>
  is a \<open>string option\<close>; \<open>truthy\<close> is JavaScript's truthiness of such a value (the empty
  string is falsy), \<open>or_empty\<close> is the idiom \<^verbatim>\<open>x || ''\<close> and \<open>or_null\<close> is \<^verbatim>\<open>x || null\<close>.
  Lower-casing and the whitespace class \<^verbatim>\<open>\s\<close> are modelled on ASCII: letters and
  spaces outside ASCII are left as they are.

  The date of a record is the one field that the program hands to a library which tells
  \<^verbatim>\<open>null\<close> from \<^verbatim>\<open>undefined\<close> (\<^verbatim>\<open>moment(undefined)\<close> is the current time,
  \<^verbatim>\<open>moment(null)\<close> is invalid), so it keeps the two apart: \<open>js_string\<close>.
  \<open>as_option\<close> is what \<^verbatim>\<open>!x\<close> and \<^verbatim>\<open>x || y\<close> see of such a value, and \<open>of_option\<close>
  reads an option of the command line, which is \<^verbatim>\<open>undefined\<close> when absent.
\<close>

datatype js_string = Undefined | Null | Str string

definition as_option :: "js_string \<Rightarrow> string option" where
  "as_option v = (case v of Str s \<Rightarrow> Some s | _ \<Rightarrow> None)"

definition of_option :: "string option \<Rightarrow> js_string" where
  "of_option v = (case v of None \<Rightarrow> Undefined | Some s \<Rightarrow> Str s)"

definition truthy :: "string option \<Rightarrow> bool" where
  "truthy v = (case v of None \<Rightarrow> False | Some s \<Rightarrow> s \<noteq> [])"

definition or_empty :: "string option \<Rightarrow> string" where
  "or_empty v = (case v of None \<Rightarrow> [] | Some s \<Rightarrow> s)"

definition or_null :: "string \<Rightarrow> string option" where
  "or_null s = (if s = [] then None else Some s)"

definition toLowerCase_char :: "char \<Rightarrow> char" where
  "toLowerCase_char c =
     (case map_of (zip ''ABCDEFGHIJKLMNOPQRSTUVWXYZ'' ''abcdefghijklmnopqrstuvwxyz'') c of
        Some d \<Rightarrow> d
      | None \<Rightarrow> c)"

definition toLowerCase :: "string \<Rightarrow> string" where
  "toLowerCase s = map toLowerCase_char s"

definition isWhitespace :: "char \<Rightarrow> bool" where
  "isWhitespace c = (c \<in> set [CHR '' '', CHR 0x09, CHR 0x0A, CHR 0x0B, CHR 0x0C, CHR 0x0D])"

definition removeWhitespace :: "string \<Rightarrow> string" where
  "removeWhitespace s = filter (\<lambda>c. \<not> isWhitespace c) s"

section \<open>The review record\<close>

record review =
  id_field :: "string option"
  title :: "string option"
  content :: "string option"
  rating :: "rat option"
  author :: "string option"
  date :: js_string
  source :: "string option"
  pros :: "string option"
  cons :: "string option"

section \<open>Helpers (utils/helpers.js)\<close>

text \<open>
  The date library \<^verbatim>\<open>moment\<close> is an external dependency and is taken as a parameter:
  \<open>moment lib v\<close> is the instant (in milliseconds) that \<^verbatim>\<open>moment(v)\<close> denotes, or \<open>None\<close>
  when \<^verbatim>\<open>isValid()\<close> is false; \<open>moment_strict lib s f\<close> is \<^verbatim>\<open>moment(s, f, true)\<close>;
  \<open>format_ymd lib t\<close> is \<^verbatim>\<open>.format('YYYY-MM-DD')\<close>.
\<close>

record moment_lib =
  moment :: "js_string \<Rightarrow> int option"
  moment_strict :: "string \<Rightarrow> string \<Rightarrow> int option"
  format_ymd :: "int \<Rightarrow> string"

definition validateDate :: "moment_lib \<Rightarrow> string \<Rightarrow> bool" where
  "validateDate lib dateString = (moment_strict lib dateString ''YYYY-MM-DD'' \<noteq> None)"

text \<open>
  \<open>replace_runs p rep s\<close> replaces every maximal run of characters satisfying \<open>p\<close> by
  \<open>rep\<close>: the regular-expression replacements \<^verbatim>\<open>replace(/\s+/g, rep)\<close> and
  \<^verbatim>\<open>replace(/[\r\n]+/g, rep)\<close>.
\<close>

function replace_runs :: "(char \<Rightarrow> bool) \<Rightarrow> string \<Rightarrow> string \<Rightarrow> string" where
  "replace_runs p rep [] = []"
| "replace_runs p rep (c # cs) =
     (if p c then rep @ replace_runs p rep (dropWhile p cs) else c # replace_runs p rep cs)"
  by pat_completeness auto
termination
  by (relation "measure (\<lambda>(p, rep, s). length s)") (auto simp: length_dropWhile_le less_Suc_eq_le)

definition trim :: "string \<Rightarrow> string" where
  "trim s = rev (dropWhile isWhitespace (rev (dropWhile isWhitespace s)))"

definition cleanText :: "string option \<Rightarrow> string" where
  "cleanText txt =
     (if \<not> truthy txt then []
      else trim (replace_runs (\<lambda>c. c = CHR 0x0D \<or> c = CHR 0x0A) '' ''
                  (replace_runs isWhitespace '' '' (or_empty txt))))"

definition date_formats :: "string list" where
  "date_formats = [''YYYY-MM-DD'', ''MM/DD/YYYY'', ''DD/MM/YYYY'', ''MMMM DD, YYYY'',
     ''MMM DD, YYYY'', ''DD MMM YYYY'', ''YYYY-MM-DD HH:mm:ss'', ''MM-DD-YYYY'']"

fun parseDate_formats :: "moment_lib \<Rightarrow> string \<Rightarrow> string list \<Rightarrow> int option" where
  "parseDate_formats lib dateString [] = None"
| "parseDate_formats lib dateString (f # fs) =
     (case moment_strict lib dateString f of
        Some t \<Rightarrow> Some t
      | None \<Rightarrow> parseDate_formats lib dateString fs)"

definition parseDate :: "moment_lib \<Rightarrow> js_string \<Rightarrow> string option" where
  "parseDate lib dateString =
     (if \<not> truthy (as_option dateString) then None
      else case parseDate_formats lib (or_empty (as_option dateString)) date_formats of
             Some t \<Rightarrow> Some (format_ymd lib t)
           | None \<Rightarrow>
               (case moment lib dateString of
                  Some t \<Rightarrow> Some (format_ymd lib t)
                | None \<Rightarrow> None))"

text \<open>
  \<^verbatim>\<open>date.isBetween(start, end, null, '[]')\<close> is
  \<^verbatim>\<open>!date.isBefore(start) && !date.isAfter(end)\<close>.
\<close>

definition isDateInRange ::
    "moment_lib \<Rightarrow> js_string \<Rightarrow> js_string \<Rightarrow> js_string \<Rightarrow> bool" where
  "isDateInRange lib dateString startDate endDate =
     (case (moment lib dateString, moment lib startDate, moment lib endDate) of
        (Some d, Some s, Some e) \<Rightarrow> \<not> d < s \<and> \<not> d > e
      | _ \<Rightarrow> False)"

text \<open>
  Numbers are binary64. A finite binary64 number is a rational, and an operation on such
  numbers gives the exact result rounded to the nearest binary64 number, ties to the even
  significand. \<open>fl\<close> is that rounding: \<open>ilog2 x\<close> is the binary exponent of a positive
  \<open>x\<close>, the spacing of the binary64 numbers around \<open>x\<close> is 2 to the power
  \<open>quantum_exp x\<close> (53 significant bits, and no finer than the subnormal spacing), and
  \<open>fl x\<close> is the multiple of that spacing nearest to \<open>x\<close>. Results of 2 to the 1024 and
  beyond, which overflow, do not arise from the operations below.
\<close>

function ilog2_up :: "rat \<Rightarrow> int" where
  "ilog2_up x = (if 2 \<le> x then ilog2_up (x / 2) + 1 else 0)"
  by pat_completeness auto
termination
proof (relation "measure (\<lambda>x. nat \<lfloor>x\<rfloor>)")
  show "wf (measure (\<lambda>x :: rat. nat \<lfloor>x\<rfloor>))" by simp
next
  fix x :: rat
  assume a: "2 \<le> x"
  have "x / 2 + 1 \<le> x" using a by simp
  then have "\<lfloor>x / 2 + 1\<rfloor> \<le> \<lfloor>x\<rfloor>" by (rule floor_mono)
  then have "\<lfloor>x / 2\<rfloor> < \<lfloor>x\<rfloor>" by simp
  moreover have "0 < \<lfloor>x\<rfloor>" using a by (simp add: less_floor_iff)
  ultimately show "(x / 2, x) \<in> measure (\<lambda>x. nat \<lfloor>x\<rfloor>)" by (simp add: zless_nat_conj)
qed

function ilog2_down :: "rat \<Rightarrow> int" where
  "ilog2_down x = (if 0 < x \<and> x < 1 then ilog2_down (x * 2) - 1 else 0)"
  by pat_completeness auto
termination
proof (relation "measure (\<lambda>x. nat \<lfloor>1 / x\<rfloor>)")
  show "wf (measure (\<lambda>x :: rat. nat \<lfloor>1 / x\<rfloor>))" by simp
next
  fix x :: rat
  assume a: "0 < x \<and> x < 1"
  then have y: "1 \<le> 1 / x" by simp
  have "1 / (x * 2) = (1 / x) / 2" by simp
  moreover have "\<lfloor>(1 / x) / 2\<rfloor> < \<lfloor>1 / x\<rfloor>"
  proof (cases "2 \<le> 1 / x")
    case True
    then have "(1 / x) / 2 + 1 \<le> 1 / x" by simp
    then have "\<lfloor>(1 / x) / 2 + 1\<rfloor> \<le> \<lfloor>1 / x\<rfloor>" by (rule floor_mono)
    then show ?thesis by simp
  next
    case False
    then have "(1 / x) / 2 < 1" by simp
    moreover have "0 \<le> (1 / x) / 2" using a by simp
    ultimately have "\<lfloor>(1 / x) / 2\<rfloor> = 0" by (simp add: floor_eq_iff)
    moreover have "1 \<le> \<lfloor>1 / x\<rfloor>" using y by (simp add: le_floor_iff)
    ultimately show ?thesis by simp
  qed
  moreover have "0 < \<lfloor>1 / x\<rfloor>" using y by (simp add: less_floor_iff)
  ultimately show "(x * 2, x) \<in> measure (\<lambda>x. nat \<lfloor>1 / x\<rfloor>)" by (simp add: zless_nat_conj)
qed

declare ilog2_up.simps [simp del] ilog2_down.simps [simp del]

definition ilog2 :: "rat \<Rightarrow> int" where
  "ilog2 x = (if 1 \<le> x then ilog2_up x else ilog2_down x)"

definition round_half_even :: "rat \<Rightarrow> int" where
  "round_half_even y =
     (if y - of_int \<lfloor>y\<rfloor> < 1 / 2 then \<lfloor>y\<rfloor>
      else if y - of_int \<lfloor>y\<rfloor> > 1 / 2 then \<lfloor>y\<rfloor> + 1
      else if even \<lfloor>y\<rfloor> then \<lfloor>y\<rfloor> else \<lfloor>y\<rfloor> + 1)"

definition quantum_exp :: "rat \<Rightarrow> int" where
  "quantum_exp x = max (ilog2 \<bar>x\<bar> - 52) (- 1074)"

definition fl :: "rat \<Rightarrow> rat" where
  "fl x = of_int (round_half_even (x / 2 powi quantum_exp x)) * 2 powi quantum_exp x"

text \<open>
  \<^verbatim>\<open>Math.round\<close> gives the integer nearest to its argument, halves going upwards.
\<close>

definition Math_round :: "rat \<Rightarrow> int" where
  "Math_round x = \<lfloor>x + 1 / 2\<rfloor>"

text \<open>
  A rating is a binary64 number or one of \<^verbatim>\<open>null\<close>, \<^verbatim>\<open>undefined\<close> and \<^verbatim>\<open>NaN\<close>, which
  are all falsy and are \<open>None\<close> here. The infinities behave as any number above the
  maximum or below 0 does. \<^verbatim>\<open>rating * 10\<close> and the division by 10 are binary64
  operations.
\<close>

definition normalizeRating :: "rat option \<Rightarrow> rat \<Rightarrow> rat" where
  "normalizeRating r maxRating =
     (case r of
        None \<Rightarrow> 0
      | Some x \<Rightarrow>
          if x = 0 \<or> x < 0 then 0
          else if x > maxRating then maxRating
          else fl (of_int (Math_round (fl (x * 10))) / 10))"

record output_review = review +
  scraped_at :: string

definition createReviewObject :: "moment_lib \<Rightarrow> string \<Rightarrow> review \<Rightarrow> output_review" where
  "createReviewObject lib now d =
     \<lparr> id_field = or_null (or_empty (id_field d)),
       title = or_null (cleanText (title d)),
       content = or_null (cleanText (content d)),
       rating = (let n = normalizeRating (rating d) 5 in if n = 0 then None else Some n),
       author = or_null (cleanText (author d)),
       date = (case parseDate lib (date d) of
                 None \<Rightarrow> Null
               | Some s \<Rightarrow> if s = [] then Null else Str s),
       source = or_null (or_empty (source d)),
       pros = or_null (cleanText (pros d)),
       cons = or_null (cleanText (cons d)),
       scraped_at = now \<rparr>"

section \<open>The base scraper (scrapers/base-scraper.js)\<close>

definition filterReviewsByDateRange ::
    "moment_lib \<Rightarrow> review list \<Rightarrow> string option \<Rightarrow> string option \<Rightarrow> review list" where
  "filterReviewsByDateRange lib reviews startDate endDate =
     (if \<not> truthy startDate \<or> \<not> truthy endDate then reviews
      else filter (\<lambda>r. if \<not> truthy (as_option (date r)) then False
                        else isDateInRange lib (date r) (of_option startDate)
                               (of_option endDate)) reviews)"

fun startsWith :: "string \<Rightarrow> string \<Rightarrow> bool" where
  "startsWith s [] = True"
| "startsWith [] (k # ks) = False"
| "startsWith (c # cs) (k # ks) = (c = k \<and> startsWith cs ks)"

fun includes_str :: "string \<Rightarrow> string \<Rightarrow> bool" where
  "includes_str [] k = (k = [])"
| "includes_str (c # cs) k = (startsWith (c # cs) k \<or> includes_str cs k)"

definition blockingKeywords :: "string list" where
  "blockingKeywords = [''access denied'', ''blocked'', ''captcha'', ''please verify'',
     ''security check'', ''403'', ''429'']"

text \<open>
  \<^verbatim>\<open>checkForBlocking\<close> reads the page title; \<open>None\<close> is the case where reading the title
  throws, which the method catches and answers with \<^verbatim>\<open>false\<close>.
\<close>

definition checkForBlocking :: "string option \<Rightarrow> bool" where
  "checkForBlocking pageTitle =
     (case pageTitle of
        None \<Rightarrow> False
      | Some t \<Rightarrow> list_ex (\<lambda>keyword. includes_str (toLowerCase t) keyword) blockingKeywords)"

section \<open>The page driver\<close>

text \<open>
  The browser is outside the program. What it answers is a parameter: \<open>site k u\<close> is the
  page the driver holds after the \<open>k\<close>-th step that changes it (a navigation, or for
  TrustRadius a click on "load more" or "next"), when the address asked for is \<open>u\<close>.
  \<open>nav_ok\<close> is the result of \<^verbatim>\<open>navigateToPage\<close> (false when loading throws, which the
  method catches), \<open>page_title\<close> the result of \<^verbatim>\<open>page.title()\<close> (\<open>None\<close> when it throws),
  \<open>extracted\<close> what the adapter's extraction returns (empty also when it throws),
  \<open>load_more\<close> and \<open>next_page\<close> the results of \<^verbatim>\<open>loadMoreReviews\<close> and \<^verbatim>\<open>goToNextPage\<close>.
  \<open>captcha\<close> is what \<^verbatim>\<open>handleCaptcha\<close> meets on the page: no CAPTCHA marker, a marker
  and a person who solves it and presses Enter, or a marker and nobody at the keyboard, in
  which case \<^verbatim>\<open>handleCaptcha\<close> waits for ever. The delays change no value and are not
  modelled.
\<close>

datatype captcha = NoCaptcha | CaptchaSolved | CaptchaUnattended

record page =
  nav_ok :: bool
  page_title :: "string option"
  captcha :: captcha
  extracted :: "review list"
  load_more :: bool
  next_page :: bool

type_synonym site = "nat \<Rightarrow> string \<Rightarrow> page"

text \<open>
  The pagination cursor of one harvest: the records accumulated, the page number, and the
  addresses handed to \<^verbatim>\<open>navigateToPage\<close> so far.
\<close>

record cursor =
  allReviews :: "review list"
  currentPage :: nat
  requested :: "string list"

text \<open>\<^verbatim>\<open>Math.ceil(a / b)\<close> for integers and positive \<open>b\<close>.\<close>

definition ceil_div :: "int \<Rightarrow> int \<Rightarrow> int" where
  "ceil_div a b = - ((- a) div b)"

text \<open>\<^verbatim>\<open>xs.slice(0, e)\<close>: a negative end counts from the end of the array.\<close>

definition slice0 :: "'a list \<Rightarrow> int \<Rightarrow> 'a list" where
  "slice0 xs e = (if e < 0 then take (nat (int (length xs) + e)) xs else take (nat e) xs)"

definition digit_char :: "nat \<Rightarrow> char" where
  "digit_char d = ''0123456789'' ! d"

fun show_nat :: "nat \<Rightarrow> string" where
  "show_nat n = (if n < 10 then [digit_char n] else show_nat (n div 10) @ [digit_char (n mod 10)])"

declare show_nat.simps [simp del]

section \<open>The G2 adapter (scrapers/g2-scraper.js)\<close>

definition G2_searchForCompany :: "string \<Rightarrow> string option" where
  "G2_searchForCompany companyName =
     Some (''https://www.g2.com'' @ ''/products/''
           @ replace_runs isWhitespace ''-'' (toLowerCase companyName) @ ''/reviews'')"

definition G2_maxPages :: "int \<Rightarrow> int" where
  "G2_maxPages limit = ceil_div limit 10"

definition G2_pageUrl :: "string \<Rightarrow> nat \<Rightarrow> string" where
  "G2_pageUrl baseUrl n =
     (if n = 1 then baseUrl else baseUrl @ ''?page='' @ show_nat n @ ''#reviews'')"

function G2_pagination ::
    "moment_lib \<Rightarrow> site \<Rightarrow> string \<Rightarrow> string option \<Rightarrow> string option \<Rightarrow> int
       \<Rightarrow> cursor \<Rightarrow> cursor" where
  "G2_pagination lib web baseUrl startDate endDate limit c =
     (if int (length (allReviews c)) < limit \<and> int (currentPage c) \<le> G2_maxPages limit then
        (let pageUrl = G2_pageUrl baseUrl (currentPage c);
             pg = web (length (requested c)) pageUrl;
             c1 = c \<lparr> requested := requested c @ [pageUrl] \<rparr>
         in if \<not> nav_ok pg then c1
            else if checkForBlocking (page_title pg) then c1
            else if extracted pg = [] then c1
            else (let filteredReviews =
                        filterReviewsByDateRange lib (extracted pg) startDate endDate;
                      c2 = c1 \<lparr> allReviews := allReviews c1 @ filteredReviews \<rparr>
                  in if filteredReviews = [] then c2
                     else G2_pagination lib web baseUrl startDate endDate limit
                            (c2 \<lparr> currentPage := currentPage c2 + 1 \<rparr>)))
      else c)"
  by pat_completeness auto
termination
  by (relation "measure (\<lambda>(lib, web, baseUrl, startDate, endDate, limit, c).
                  nat (G2_maxPages limit + 1 - int (currentPage c)))") auto

declare G2_pagination.simps [simp del]

text \<open>
  \<open>G2_pagination\<close> and the definitions built on it give the values of a harvest in
  which every wait of \<^verbatim>\<open>handleCaptcha\<close> ends (its result is not used). The harvest as a
  call that may not return is \<open>G2_scrapeReviews_call\<close> below.

  The body of the \<^verbatim>\<open>try\<close> block of \<^verbatim>\<open>scrapeReviews\<close>: \<open>Inl\<close> is an exception
  thrown inside it, \<open>Inr\<close> the cursor when the block returns, its \<open>allReviews\<close> being the
  array returned.
\<close>

definition G2_scrapeReviews_try ::
    "moment_lib \<Rightarrow> site \<Rightarrow> string option \<Rightarrow> string option \<Rightarrow> string option \<Rightarrow> int
       \<Rightarrow> string + cursor" where
  "G2_scrapeReviews_try lib web url startDate endDate limit =
     (if \<not> truthy url then Inl ''No URL provided for scraping''
      else
        (let u = or_empty url;
             pg0 = web 0 u;
             c0 = \<lparr> allReviews = [], currentPage = 1, requested = [u] \<rparr>
         in if \<not> nav_ok pg0 then Inr c0
            else if checkForBlocking (page_title pg0) then Inr c0
            else (let c = G2_pagination lib web (takeWhile (\<lambda>ch. ch \<noteq> CHR ''?'') u)
                            startDate endDate limit c0
                  in Inr (c \<lparr> allReviews := slice0 (allReviews c) limit \<rparr>))))"

text \<open>
  \<^verbatim>\<open>scrapeReviews\<close> with its \<^verbatim>\<open>catch\<close>: the value is \<open>Inr\<close> of the array returned, or
  \<open>Inl\<close> of an exception that leaves the method.
\<close>

definition G2_scrapeReviews ::
    "moment_lib \<Rightarrow> site \<Rightarrow> string option \<Rightarrow> string option \<Rightarrow> string option \<Rightarrow> int
       \<Rightarrow> string + review list" where
  "G2_scrapeReviews lib web url startDate endDate limit =
     (case G2_scrapeReviews_try lib web url startDate endDate limit of
        Inl e \<Rightarrow> Inr []
      | Inr c \<Rightarrow> Inr (allReviews c))"

text \<open>The addresses a call of \<^verbatim>\<open>scrapeReviews\<close> navigates to, in order.\<close>

definition G2_requests ::
    "moment_lib \<Rightarrow> site \<Rightarrow> string option \<Rightarrow> string option \<Rightarrow> string option \<Rightarrow> int
       \<Rightarrow> string list" where
  "G2_requests lib web url startDate endDate limit =
     (case G2_scrapeReviews_try lib web url startDate endDate limit of
        Inl e \<Rightarrow> []
      | Inr c \<Rightarrow> requested c)"




section \<open>The Capterra adapter (scrapers/capterra-scraper.js)\<close>

definition Capterra_removeDuplicateReviews :: "review list \<Rightarrow> review list \<Rightarrow> review list" where
  "Capterra_removeDuplicateReviews existingReviews newReviews =
     filter (\<lambda>r. content r \<notin> set (map content existingReviews)) newReviews"

definition Capterra_maxPages :: "int \<Rightarrow> int" where
  "Capterra_maxPages limit = ceil_div limit 20"





text \<open>The harvest as a call that may not return, as for G2.\<close>

function Capterra_pagination_call ::
    "moment_lib \<Rightarrow> site \<Rightarrow> string \<Rightarrow> string option \<Rightarrow> string option \<Rightarrow> int
       \<Rightarrow> cursor \<Rightarrow> cursor option" where
  "Capterra_pagination_call lib web baseUrl startDate endDate limit c =
     (if int (length (allReviews c)) < limit \<and> int (currentPage c) \<le> Capterra_maxPages limit then
        (let pageUrl = baseUrl @ ''?page='' @ show_nat (currentPage c);
             pg = web (length (requested c)) pageUrl;
             c1 = c \<lparr> requested := requested c @ [pageUrl] \<rparr>
         in if \<not> nav_ok pg then Some c1
            else if checkForBlocking (page_title pg) then Some c1
            else if captcha pg = CaptchaUnattended then None
            else if extracted pg = [] then Some c1
            else (let filtered = filterReviewsByDateRange lib (extracted pg) startDate endDate;
                      unique = Capterra_removeDuplicateReviews (allReviews c1) filtered;
                      c2 = c1 \<lparr> allReviews := allReviews c1 @ unique \<rparr>
                  in if filtered = [] then Some c2
                     else Capterra_pagination_call lib web baseUrl startDate endDate limit
                            (c2 \<lparr> currentPage := currentPage c2 + 1 \<rparr>)))
      else Some c)"
  by pat_completeness auto
termination
  by (relation "measure (\<lambda>(lib, web, baseUrl, startDate, endDate, limit, c).
                  nat (Capterra_maxPages limit + 1 - int (currentPage c)))") auto

declare Capterra_pagination_call.simps [simp del]


section \<open>The TrustRadius adapter (scrapers/trustradius-scraper.js)\<close>








section \<open>Deduplication (index.js)\<close>

text \<open>
  \<^verbatim>\<open>createReviewHash\<close>: the first 100 characters of the content, the author and the date,
  joined with underscores, lower-cased, all whitespace removed.
\<close>

definition createReviewHash :: "review \<Rightarrow> string" where
  "createReviewHash r =
     removeWhitespace (toLowerCase
       (take 100 (or_empty (content r)) @ ''_'' @ or_empty (author r) @ ''_''
          @ or_empty (as_option (date r))))"

text \<open>
  The loop of \<^verbatim>\<open>removeDuplicates\<close>: \<open>seen\<close> is the set of hashes met so far and
  \<open>uniqueReviews\<close> the records pushed so far.
\<close>

fun removeDuplicates_loop :: "string set \<Rightarrow> review list \<Rightarrow> review list \<Rightarrow> review list" where
  "removeDuplicates_loop seen uniqueReviews [] = uniqueReviews"
| "removeDuplicates_loop seen uniqueReviews (r # rs) =
     (if createReviewHash r \<notin> seen
      then removeDuplicates_loop (insert (createReviewHash r) seen) (uniqueReviews @ [r]) rs
      else removeDuplicates_loop seen uniqueReviews rs)"

definition removeDuplicates :: "review list \<Rightarrow> review list" where
  "removeDuplicates reviews = removeDuplicates_loop {} [] reviews"

text \<open>
  The identity key as the specification words it: the plain concatenation of the three
  parts, lower-cased and whitespace-stripped. It is compared with \<open>createReviewHash\<close> below.
\<close>

definition spec_identity_key :: "review \<Rightarrow> string" where
  "spec_identity_key r =
     removeWhitespace (toLowerCase
       (take 100 (or_empty (content r)) @ or_empty (author r)
          @ or_empty (as_option (date r))))"

definition blank_review :: review where
  "blank_review = \<lparr> id_field = None, title = None, content = None, rating = None,
     author = None, date = Null, source = None, pros = None, cons = None \<rparr>"

section \<open>Sorting (index.js, processResults)\<close>

text \<open>
  The comparator handed to \<^verbatim>\<open>sort\<close>: \<^verbatim>\<open>dateB.diff(dateA)\<close> when both dates are valid,
  and 0 otherwise.
\<close>

definition compareReviews :: "moment_lib \<Rightarrow> review \<Rightarrow> review \<Rightarrow> int" where
  "compareReviews lib a b =
     (case (moment lib (date b), moment lib (date a)) of
        (Some dateB, Some dateA) \<Rightarrow> dateB - dateA
      | _ \<Rightarrow> 0)"

text \<open>
  \<^verbatim>\<open>Array.prototype.sort\<close> belongs to the engine; the program runs on Node.js, whose
  engine is V8. V8 sorts an array of fewer than 64 elements in two steps. It takes the
  longest run at the start of the array: with \<^verbatim>\<open>order = compare(a[1], a[0])\<close> the run is
  descending when \<^verbatim>\<open>order < 0\<close>, and it goes on while \<^verbatim>\<open>compare(a[i], a[i-1])\<close> is
  \<^verbatim>\<open>< 0\<close> for a descending run and \<^verbatim>\<open>>= 0\<close> otherwise; a descending run is reversed.
  Then it inserts every remaining element, in order, into the sorted stretch before it,
  at the place a binary search finds: with \<^verbatim>\<open>left = 0\<close> and \<^verbatim>\<open>right\<close> the length of the
  stretch, while \<^verbatim>\<open>left < right\<close> it takes \<^verbatim>\<open>mid = left + ((right - left) >> 1)\<close> and
  sets \<^verbatim>\<open>right = mid\<close> when \<^verbatim>\<open>compare(pivot, a[mid]) < 0\<close> and \<^verbatim>\<open>left = mid + 1\<close>
  otherwise. An array of 64 elements or more is cut into such stretches that are merged;
  what the engine returns for those is a parameter, \<open>long_sort\<close>.
\<close>

fun run_tail :: "bool \<Rightarrow> ('a \<Rightarrow> 'a \<Rightarrow> int) \<Rightarrow> 'a \<Rightarrow> 'a list \<Rightarrow> 'a list \<times> 'a list" where
  "run_tail descending cmp previous [] = ([], [])"
| "run_tail descending cmp previous (current # rest) =
     (if (if descending then cmp current previous < 0 else cmp current previous \<ge> 0)
      then (case run_tail descending cmp current rest of
              (run, remainder) \<Rightarrow> (current # run, remainder))
      else ([], current # rest))"

fun CountAndMakeRun :: "('a \<Rightarrow> 'a \<Rightarrow> int) \<Rightarrow> 'a list \<Rightarrow> 'a list \<times> 'a list" where
  "CountAndMakeRun cmp [] = ([], [])"
| "CountAndMakeRun cmp [x] = ([x], [])"
| "CountAndMakeRun cmp (low # high # rest) =
     (case run_tail (cmp high low < 0) cmp high rest of
        (run, remainder) \<Rightarrow>
          (if cmp high low < 0 then rev (low # high # run) else low # high # run, remainder))"

function insertion_point :: "('a \<Rightarrow> 'a \<Rightarrow> int) \<Rightarrow> 'a \<Rightarrow> 'a list \<Rightarrow> nat \<Rightarrow> nat \<Rightarrow> nat" where
  "insertion_point cmp pivot ys left right =
     (if left < right
      then (if cmp pivot (ys ! (left + (right - left) div 2)) < 0
            then insertion_point cmp pivot ys left (left + (right - left) div 2)
            else insertion_point cmp pivot ys (left + (right - left) div 2 + 1) right)
      else left)"
  by pat_completeness auto
termination
  by (relation "measure (\<lambda>(cmp, pivot, ys, left, right). right - left)") auto

declare insertion_point.simps [simp del]

definition insert_pivot :: "('a \<Rightarrow> 'a \<Rightarrow> int) \<Rightarrow> 'a list \<Rightarrow> 'a \<Rightarrow> 'a list" where
  "insert_pivot cmp ys pivot =
     take (insertion_point cmp pivot ys 0 (length ys)) ys @ [pivot]
       @ drop (insertion_point cmp pivot ys 0 (length ys)) ys"

definition BinaryInsertionSort :: "('a \<Rightarrow> 'a \<Rightarrow> int) \<Rightarrow> 'a list \<Rightarrow> 'a list \<Rightarrow> 'a list" where
  "BinaryInsertionSort cmp run remainder = foldl (insert_pivot cmp) run remainder"

definition Array_sort ::
    "(('a \<Rightarrow> 'a \<Rightarrow> int) \<Rightarrow> 'a list \<Rightarrow> 'a list) \<Rightarrow> ('a \<Rightarrow> 'a \<Rightarrow> int) \<Rightarrow> 'a list \<Rightarrow> 'a list" where
  "Array_sort long_sort cmp xs =
     (if length xs < 64
      then (case CountAndMakeRun cmp xs of
              (run, remainder) \<Rightarrow> BinaryInsertionSort cmp run remainder)
      else long_sort cmp xs)"

section \<open>The orchestrator (index.js)\<close>

record options =
  opt_company :: "string option"
  opt_source :: string
  opt_url :: "string option"
  opt_startDate :: "string option"
  opt_endDate :: "string option"
  opt_limit :: int
  opt_verbose :: bool

text \<open>
  A scraper object, by what its methods answer when the orchestrator awaits them: \<open>Inl\<close>
  is an exception with its message, \<open>Inr\<close> a value.
\<close>

record scraper =
  constructor_name :: string
  initialize :: "string + bool"
  searchForCompany :: "string \<Rightarrow> string + string option"
  scrapeReviews :: "string option \<Rightarrow> string option \<Rightarrow> string option \<Rightarrow> int \<Rightarrow> string + review list"
  cleanup :: "string + unit"

record run_stats =
  totalReviews :: nat
  sources :: "string list"
  errors :: "(string \<times> string) list"
  successRate :: int
  stats_startDate :: "string option"
  stats_endDate :: "string option"

text \<open>
  The state of one run: \<open>collected\<close> is the array \<^verbatim>\<open>allReviews\<close> of \<^verbatim>\<open>scrape\<close>,
  \<open>stats\<close> is \<^verbatim>\<open>this.stats\<close>.
\<close>

record run_state =
  collected :: "review list"
  stats :: run_stats

text \<open>
  What lies outside the program: the date library, the clock reading stored in
  \<^verbatim>\<open>scraped_at\<close>, what the engine's sort returns for arrays of 64 elements or more, the
  outcome of writing the reviews file and the statistics file, and the three scraper
  objects that \<^verbatim>\<open>createScrapers\<close> constructs.
\<close>

record env =
  lib :: moment_lib
  clock :: string
  long_sort :: "(review \<Rightarrow> review \<Rightarrow> int) \<Rightarrow> review list \<Rightarrow> review list"
  saveToFile :: "output_review list \<Rightarrow> string + string"
  saveStats :: "run_stats \<Rightarrow> string + string"
  g2 :: scraper
  capterra :: scraper
  trustradius :: scraper

definition initial_stats :: run_stats where
  "initial_stats = \<lparr> totalReviews = 0, sources = [], errors = [], successRate = 0,
     stats_startDate = None, stats_endDate = None \<rparr>"

definition validSources :: "string list" where
  "validSources = [''g2'', ''capterra'', ''trustradius'', ''all'']"

definition validateOptions :: "moment_lib \<Rightarrow> options \<Rightarrow> bool" where
  "validateOptions l opts =
     (if \<not> truthy (opt_company opts) then False
      else if truthy (opt_startDate opts) \<and> \<not> validateDate l (or_empty (opt_startDate opts))
        then False
      else if truthy (opt_endDate opts) \<and> \<not> validateDate l (or_empty (opt_endDate opts))
        then False
      else if truthy (opt_startDate opts) \<and> truthy (opt_endDate opts)
              \<and> (case (moment l (of_option (opt_startDate opts)),
                          moment l (of_option (opt_endDate opts))) of
                    (Some a, Some b) \<Rightarrow> a > b
                  | _ \<Rightarrow> False)
        then False
      else if toLowerCase (opt_source opts) \<notin> set validSources then False
      else True)"

definition createScrapers :: "env \<Rightarrow> string \<Rightarrow> scraper list" where
  "createScrapers e src =
     (let s = toLowerCase src
      in if s = ''g2'' then [g2 e]
         else if s = ''capterra'' then [capterra e]
         else if s = ''trustradius'' then [trustradius e]
         else if s = ''all'' then [g2 e, capterra e, trustradius e]
         else [])"

text \<open>\<^verbatim>\<open>name.replace('Scraper', '')\<close>: the first occurrence is removed.\<close>

fun remove_first :: "string \<Rightarrow> string \<Rightarrow> string" where
  "remove_first pat [] = []"
| "remove_first pat (c # cs) =
     (if startsWith (c # cs) pat then drop (length pat) (c # cs) else c # remove_first pat cs)"

definition source_tag :: "scraper \<Rightarrow> string" where
  "source_tag s = remove_first ''Scraper'' (constructor_name s)"

text \<open>
  The \<^verbatim>\<open>try\<close> block of the loop over the scrapers: the state when the block is left,
  and the message of the exception that left it, if one did.
\<close>

definition run_source :: "options \<Rightarrow> scraper \<Rightarrow> run_state \<Rightarrow> run_state \<times> string option" where
  "run_source opts s st =
     (case initialize s of
        Inl e \<Rightarrow> (st, Some e)
      | Inr success \<Rightarrow>
          if \<not> success then (st, None)
          else
            (case (if truthy (opt_url opts) then Inr (opt_url opts)
                   else searchForCompany s (or_empty (opt_company opts))) of
               Inl e \<Rightarrow> (st, Some e)
             | Inr productUrl \<Rightarrow>
                 if \<not> truthy productUrl then
                   (case cleanup s of Inl e \<Rightarrow> (st, Some e) | Inr u \<Rightarrow> (st, None))
                 else
                   (case scrapeReviews s productUrl (opt_startDate opts) (opt_endDate opts)
                           (opt_limit opts) of
                      Inl e \<Rightarrow> (st, Some e)
                    | Inr reviews \<Rightarrow>
                        (let st1 =
                               (if length reviews > 0
                                then st \<lparr> collected := collected st @ reviews,
                                          stats := (stats st)
                                            \<lparr> sources := sources (stats st) @ [source_tag s] \<rparr> \<rparr>
                                else st)
                         in case cleanup s of
                              Inl e \<Rightarrow> (st1, Some e)
                            | Inr u \<Rightarrow> (st1, None)))))"

text \<open>
  One iteration with its \<^verbatim>\<open>catch\<close>: the exception is pushed on \<^verbatim>\<open>stats.errors\<close> under
  the scraper's constructor name; the cleanup in the handler swallows its own failure.
\<close>

definition process_scraper :: "options \<Rightarrow> scraper \<Rightarrow> run_state \<Rightarrow> run_state" where
  "process_scraper opts s st =
     (case run_source opts s st of
        (st1, None) \<Rightarrow> st1
      | (st1, Some e) \<Rightarrow>
          st1 \<lparr> stats := (stats st1)
                  \<lparr> errors := errors (stats st1) @ [(constructor_name s, e)] \<rparr> \<rparr>)"

fun run_scrapers :: "options \<Rightarrow> scraper list \<Rightarrow> run_state \<Rightarrow> run_state" where
  "run_scrapers opts [] st = st"
| "run_scrapers opts (s # ss) st = run_scrapers opts ss (process_scraper opts s st)"

text \<open>
  \<^verbatim>\<open>processResults\<close>: the statistics when it is left, and the message of the exception
  it rethrows, if any. The elapsed time it stores is a clock reading and is left out.
\<close>

definition finalReviews :: "env \<Rightarrow> review list \<Rightarrow> output_review list" where
  "finalReviews e reviews =
     map (createReviewObject (lib e) (clock e))
       (Array_sort (long_sort e) (compareReviews (lib e)) (removeDuplicates reviews))"

definition processResults ::
    "env \<Rightarrow> options \<Rightarrow> review list \<Rightarrow> run_stats \<Rightarrow> run_stats \<times> string option" where
  "processResults e opts reviews stt =
     (case saveToFile e (finalReviews e reviews) of
        Inl msg \<Rightarrow> (stt, Some (''Failed to save file: '' @ msg))
      | Inr filePath \<Rightarrow>
          (let stt1 = stt \<lparr> totalReviews := length (finalReviews e reviews),
                  successRate :=
                    Math_round (fl (fl (of_nat (length (finalReviews e reviews))
                                          / of_nat (length reviews)) * 100)),
                  stats_startDate := opt_startDate opts,
                  stats_endDate := opt_endDate opts \<rparr>
           in if opt_verbose opts
              then (case saveStats e stt1 of
                      Inl msg \<Rightarrow> (stt1, Some (''Failed to save file: '' @ msg))
                    | Inr p \<Rightarrow> (stt1, None))
              else (stt1, None)))"

text \<open>
  \<^verbatim>\<open>scrape\<close>: the boolean it resolves to (the process exits with 0 exactly when it is
  true), and \<^verbatim>\<open>this.stats\<close> at that moment.
\<close>

definition scrape :: "env \<Rightarrow> options \<Rightarrow> bool \<times> run_stats" where
  "scrape e opts =
     (if \<not> validateOptions (lib e) opts then (False, initial_stats)
      else
        (let st = run_scrapers opts (createScrapers e (opt_source opts))
                    \<lparr> collected = [], stats = initial_stats \<rparr>
         in if length (collected st) > 0
            then (case processResults e opts (collected st) (stats st) of
                    (stt, None) \<Rightarrow> (True, stt)
                  | (stt, Some msg) \<Rightarrow> (False, stt))
            else (False, stats st)))"


text \<open>
  The G2 scraper object over a site; \<open>launched\<close> is whether the browser could be started
  (\<^verbatim>\<open>initialize\<close> catches every failure and answers \<^verbatim>\<open>false\<close>).
\<close>

definition G2Scraper :: "moment_lib \<Rightarrow> site \<Rightarrow> bool \<Rightarrow> scraper" where
  "G2Scraper l web launched =
     \<lparr> constructor_name = ''G2Scraper'',
       initialize = Inr launched,
       searchForCompany = (\<lambda>companyName. Inr (G2_searchForCompany companyName)),
       scrapeReviews = G2_scrapeReviews l web,
       cleanup = Inr () \<rparr>"







text \<open>The records one source adds to \<^verbatim>\<open>allReviews\<close> in a run.\<close>

definition contribution :: "options \<Rightarrow> scraper \<Rightarrow> review list" where
  "contribution opts s =
     collected (fst (run_source opts s \<lparr> collected = [], stats = initial_stats \<rparr>))"

section \<open>Concrete inputs\<close>

text \<open>
  A date library that knows a handful of dates, with the instants (milliseconds, UTC) that
  \<^verbatim>\<open>moment\<close> gives them. The ISO strings are read by \<^verbatim>\<open>moment(s)\<close> and by the
  strict format \<^verbatim>\<open>YYYY-MM-DD\<close>. The string \<^verbatim>\<open>13/02/2024\<close> is read by the strict format
  \<^verbatim>\<open>DD/MM/YYYY\<close> only: \<^verbatim>\<open>moment('13/02/2024')\<close> falls back to the \<^verbatim>\<open>Date\<close>
  constructor, which rejects a month 13. \<^verbatim>\<open>moment(undefined)\<close> is the current time,
  here 2025-08-14 09:00:00. Every other value, \<^verbatim>\<open>null\<close> included, is invalid.
\<close>

definition known_dates :: "(string \<times> int) list" where
  "known_dates = [(''2023-12-31'', 1703980800000), (''2024-01-01'', 1704067200000),
     (''2024-01-15'', 1705276800000), (''2024-01-31'', 1706659200000),
     (''2024-02-13'', 1707782400000), (''2024-06-01'', 1717200000000)]"

definition small_lib :: moment_lib where
  "small_lib =
     \<lparr> moment = (\<lambda>v. case v of
                        Undefined \<Rightarrow> Some 1755162000000
                      | Null \<Rightarrow> None
                      | Str s \<Rightarrow> map_of known_dates s),
       moment_strict = (\<lambda>s f. if f = ''YYYY-MM-DD'' then map_of known_dates s
                              else if f = ''DD/MM/YYYY'' \<and> s = ''13/02/2024''
                                then Some 1707782400000
                              else None),
       format_ymd = (\<lambda>t. case map_of (map (\<lambda>(s, i). (i, s)) known_dates) t of
                            None \<Rightarrow> [] | Some s \<Rightarrow> s) \<rparr>"

text \<open>
  A record with a content and a date, the date being a string or \<^verbatim>\<open>null\<close>.
\<close>

definition dated :: "string \<Rightarrow> string option \<Rightarrow> review" where
  "dated c d =
     blank_review \<lparr> content := Some c,
                    date := (case d of None \<Rightarrow> Null | Some s \<Rightarrow> Str s) \<rparr>"

definition empty_page :: page where
  "empty_page = \<lparr> nav_ok = True, page_title = Some ''Reviews'', captcha = NoCaptcha,
     extracted = [],
     load_more = False, next_page = False \<rparr>"

text \<open>A source offering two pages of six records each, and nothing beyond.\<close>

definition six_a :: "review list" where
  "six_a = [dated ''a1'' None, dated ''a2'' None, dated ''a3'' None,
            dated ''a4'' None, dated ''a5'' None, dated ''a6'' None]"



text \<open>A site that answers every request with an "Access Denied" page.\<close>

definition denied :: site where
  "denied k u = empty_page \<lparr> page_title := Some ''Access Denied'' \<rparr>"

definition fixed_scraper :: "string \<Rightarrow> (string + review list) \<Rightarrow> scraper" where
  "fixed_scraper n outcome =
     \<lparr> constructor_name = n,
       initialize = Inr True,
       searchForCompany = (\<lambda>c. Inr (Some ''https://example.org/reviews'')),
       scrapeReviews = (\<lambda>u s e l. outcome),
       cleanup = Inr () \<rparr>"

definition slack_options :: options where
  "slack_options = \<lparr> opt_company = Some ''Slack'', opt_source = ''g2'', opt_url = None,
     opt_startDate = None, opt_endDate = None, opt_limit = 10, opt_verbose = False \<rparr>"

definition small_env :: "scraper \<Rightarrow> (string + string) \<Rightarrow> env" where
  "small_env s saved =
     \<lparr> lib = small_lib, clock = ''2025-08-14 09:00:00'', long_sort = (\<lambda>cmp xs. xs),
       saveToFile = (\<lambda>out. saved), saveStats = (\<lambda>stt. saved),
       g2 = s, capterra = fixed_scraper ''CapterraScraper'' (Inr []),
       trustradius = fixed_scraper ''TrustRadiusScraper'' (Inr []) \<rparr>"







section \<open>Properties of deduplication\<close>

lemma removeDuplicates_loop_acc:
  "removeDuplicates_loop seen acc rs = acc @ removeDuplicates_loop seen [] rs"
proof (induction rs arbitrary: seen acc)
  case Nil
  show ?case by simp
next
  case (Cons r rs)
  show ?case
    using Cons.IH [of "insert (createReviewHash r) seen" "acc @ [r]"]
      Cons.IH [of "insert (createReviewHash r) seen" "[r]"] Cons.IH [of seen acc]
    by simp
qed

lemma removeDuplicates_loop_Cons:
  "removeDuplicates_loop seen [] (r # rs) =
     (if createReviewHash r \<notin> seen
      then r # removeDuplicates_loop (insert (createReviewHash r) seen) [] rs
      else removeDuplicates_loop seen [] rs)"
  using removeDuplicates_loop_acc [of "insert (createReviewHash r) seen" "[r]" rs] by simp

lemma removeDuplicates_loop_snoc:
  "removeDuplicates_loop seen [] (xs @ [x]) =
     removeDuplicates_loop seen [] xs @
       (if createReviewHash x \<in> seen \<union> createReviewHash ` set xs then [] else [x])"
proof (induction xs arbitrary: seen)
  case Nil
  show ?case by simp
next
  case (Cons y ys)
  show ?case
    using Cons.IH [of seen] Cons.IH [of "insert (createReviewHash y) seen"]
    by (simp only: append_Cons removeDuplicates_loop_Cons) auto
qed

lemma removeDuplicates_loop_hashes:
  "createReviewHash ` set (removeDuplicates_loop seen [] xs) = createReviewHash ` set xs - seen"
proof (induction xs arbitrary: seen)
  case Nil
  show ?case by simp
next
  case (Cons y ys)
  show ?case
    using Cons.IH [of seen] Cons.IH [of "insert (createReviewHash y) seen"]
    by (simp only: removeDuplicates_loop_Cons) auto
qed

lemma removeDuplicates_loop_distinct:
  "distinct (map createReviewHash (removeDuplicates_loop seen [] xs))"
proof (induction xs arbitrary: seen)
  case Nil
  show ?case by simp
next
  case (Cons y ys)
  have "createReviewHash y \<notin>
      createReviewHash ` set (removeDuplicates_loop (insert (createReviewHash y) seen) [] ys)"
    by (simp add: removeDuplicates_loop_hashes)
  then show ?case
    using Cons.IH [of seen] Cons.IH [of "insert (createReviewHash y) seen"]
    by (simp only: removeDuplicates_loop_Cons) auto
qed

lemma removeDuplicates_loop_fixed:
  "distinct (map createReviewHash xs) \<Longrightarrow> createReviewHash ` set xs \<inter> seen = {}
     \<Longrightarrow> removeDuplicates_loop seen [] xs = xs"
proof (induction xs arbitrary: seen)
  case Nil
  show ?case by simp
next
  case (Cons y ys)
  have ny: "createReviewHash y \<notin> seen" using Cons.prems(2) by auto
  have d: "distinct (map createReviewHash ys)" using Cons.prems(1) by simp
  have "createReviewHash ` set ys \<inter> insert (createReviewHash y) seen = {}"
    using Cons.prems by auto
  then have "removeDuplicates_loop (insert (createReviewHash y) seen) [] ys = ys"
    using Cons.IH [OF d] by blast
  then show ?case using ny by (simp only: removeDuplicates_loop_Cons) simp
qed

lemma removeDuplicates_loop_length:
  "length (removeDuplicates_loop seen [] xs) \<le> length xs"
proof (induction xs arbitrary: seen)
  case Nil
  show ?case by simp
next
  case (Cons y ys)
  show ?case
    using Cons.IH [of seen] Cons.IH [of "insert (createReviewHash y) seen"]
    by (simp only: removeDuplicates_loop_Cons) auto
qed

lemma removeDuplicates_loop_subseq:
  "subseq (removeDuplicates_loop seen [] xs) xs"
proof (induction xs arbitrary: seen)
  case Nil
  show ?case by simp
next
  case (Cons y ys)
  show ?case
    using Cons.IH [of seen] Cons.IH [of "insert (createReviewHash y) seen"]
    by (simp only: removeDuplicates_loop_Cons) auto
qed

text \<open>
  C8. Deduplication is idempotent and never returns more records than it was given.
\<close>

theorem removeDuplicates_idempotent_nonexpanding:
  "removeDuplicates (removeDuplicates X) = removeDuplicates X
   \<and> length (removeDuplicates X) \<le> length X"
proof
  have "createReviewHash ` set (removeDuplicates_loop {} [] X) \<inter> {} = {}" by simp
  then show "removeDuplicates (removeDuplicates X) = removeDuplicates X"
    unfolding removeDuplicates_def
    using removeDuplicates_loop_fixed [OF removeDuplicates_loop_distinct [of "{}" X]] by blast
  show "length (removeDuplicates X) \<le> length X"
    unfolding removeDuplicates_def by (rule removeDuplicates_loop_length)
qed

lemma removeDuplicates_loop_first:
  "r \<in> set (removeDuplicates_loop seen [] xs)
     \<Longrightarrow> find (\<lambda>x. createReviewHash x = createReviewHash r) xs = Some r"
proof (induction xs arbitrary: seen)
  case Nil
  then show ?case by simp
next
  case (Cons y ys)
  show ?case
  proof (cases "createReviewHash y \<in> seen")
    case True
    then have mem: "r \<in> set (removeDuplicates_loop seen [] ys)"
      using Cons.prems by (simp only: removeDuplicates_loop_Cons) simp
    then have "createReviewHash r \<in> createReviewHash ` set ys - seen"
      using removeDuplicates_loop_hashes [of seen ys] by blast
    then have "createReviewHash y \<noteq> createReviewHash r" using True by auto
    then show ?thesis using Cons.IH [OF mem] by simp
  next
    case False
    then have "r = y \<or> r \<in> set (removeDuplicates_loop (insert (createReviewHash y) seen) [] ys)"
      using Cons.prems by (simp only: removeDuplicates_loop_Cons) auto
    then show ?thesis
    proof
      assume "r = y"
      then show ?thesis by simp
    next
      assume mem: "r \<in> set (removeDuplicates_loop (insert (createReviewHash y) seen) [] ys)"
      then have "createReviewHash r \<in> createReviewHash ` set ys - insert (createReviewHash y) seen"
        using removeDuplicates_loop_hashes [of "insert (createReviewHash y) seen" ys] by blast
      then have "createReviewHash y \<noteq> createReviewHash r" by auto
      then show ?thesis using Cons.IH [OF mem] by simp
    qed
  qed
qed

text \<open>
  C1 (as the claim states the key). The claim takes the identity key to be the plain
  concatenation of the three parts. The code joins them with underscores, so two records
  whose plain concatenations agree but whose parts differ are both kept: content
  \<^verbatim>\<open>"ab"\<close> with no author, and content \<^verbatim>\<open>"a"\<close> with author \<^verbatim>\<open>"b"\<close>.
\<close>

theorem removeDuplicates_plain_key_counterexample:
  "spec_identity_key (blank_review \<lparr> content := Some ''ab'' \<rparr>)
     = spec_identity_key (blank_review \<lparr> content := Some ''a'', author := Some ''b'' \<rparr>)
   \<and> removeDuplicates
        [blank_review \<lparr> content := Some ''ab'' \<rparr>,
         blank_review \<lparr> content := Some ''a'', author := Some ''b'' \<rparr>]
     = [blank_review \<lparr> content := Some ''ab'' \<rparr>,
        blank_review \<lparr> content := Some ''a'', author := Some ''b'' \<rparr>]"
  by (simp add: spec_identity_key_def removeDuplicates_def createReviewHash_def blank_review_def
      or_empty_def toLowerCase_def toLowerCase_char_def removeWhitespace_def isWhitespace_def
      as_option_def)

text \<open>
  C1 (amended). With the key that \<open>createReviewHash\<close> computes (the three parts joined with
  underscores, then lower-cased and stripped of whitespace), deduplication keeps exactly
  the first-seen record of every key: a record is appended to the output if and only if
  no earlier record has its key, so the output keys are pairwise distinct, every input key
  survives, each surviving record is the first input record with its key, and the output
  is a subsequence of the input. Two records with identical content, author and date
  collapse to the first one.
\<close>

theorem removeDuplicates_first_seen:
  "removeDuplicates [] = []
   \<and> removeDuplicates (xs @ [x]) =
       (if createReviewHash x \<in> createReviewHash ` set xs
        then removeDuplicates xs else removeDuplicates xs @ [x])
   \<and> distinct (map createReviewHash (removeDuplicates xs))
   \<and> createReviewHash ` set (removeDuplicates xs) = createReviewHash ` set xs
   \<and> subseq (removeDuplicates xs) xs
   \<and> (\<forall>r \<in> set (removeDuplicates xs).
         find (\<lambda>y. createReviewHash y = createReviewHash r) xs = Some r)
   \<and> (content a = content b \<and> author a = author b \<and> date a = date b
        \<longrightarrow> removeDuplicates [a, b] = [a])"
proof -
  have 1: "removeDuplicates [] = []" by (simp add: removeDuplicates_def)
  have 2: "removeDuplicates (xs @ [x]) =
       (if createReviewHash x \<in> createReviewHash ` set xs
        then removeDuplicates xs else removeDuplicates xs @ [x])"
    unfolding removeDuplicates_def using removeDuplicates_loop_snoc [of "{}" xs x] by simp
  have 3: "distinct (map createReviewHash (removeDuplicates xs))"
    unfolding removeDuplicates_def by (rule removeDuplicates_loop_distinct)
  have 4: "createReviewHash ` set (removeDuplicates xs) = createReviewHash ` set xs"
    unfolding removeDuplicates_def using removeDuplicates_loop_hashes [of "{}" xs] by simp
  have 5: "subseq (removeDuplicates xs) xs"
    unfolding removeDuplicates_def by (rule removeDuplicates_loop_subseq)
  have 6: "\<forall>r \<in> set (removeDuplicates xs).
         find (\<lambda>y. createReviewHash y = createReviewHash r) xs = Some r"
    unfolding removeDuplicates_def using removeDuplicates_loop_first by blast
  have 7: "content a = content b \<and> author a = author b \<and> date a = date b
        \<longrightarrow> removeDuplicates [a, b] = [a]"
    by (simp add: removeDuplicates_def createReviewHash_def)
  from 1 2 3 4 5 6 7 show ?thesis by blast
qed

text \<open>
  Witness for C1: a G2 record and a Capterra record with the same content, author and
  date, and different identifiers and sources.
\<close>

theorem removeDuplicates_first_seen_witness:
  "removeDuplicates
     [blank_review \<lparr> id_field := Some ''g2_0_1'', content := Some ''Great tool'',
        author := Some ''Ann'', date := Str ''2024-03-15'', source := Some ''G2'' \<rparr>,
      blank_review \<lparr> id_field := Some ''capterra_0_2'', content := Some ''Great tool'',
        author := Some ''Ann'', date := Str ''2024-03-15'', source := Some ''Capterra'' \<rparr>]
   = [blank_review \<lparr> id_field := Some ''g2_0_1'', content := Some ''Great tool'',
        author := Some ''Ann'', date := Str ''2024-03-15'', source := Some ''G2'' \<rparr>]"
  using removeDuplicates_first_seen
    [of "[]" "blank_review"
      "blank_review \<lparr> id_field := Some ''g2_0_1'', content := Some ''Great tool'',
        author := Some ''Ann'', date := Str ''2024-03-15'', source := Some ''G2'' \<rparr>"
      "blank_review \<lparr> id_field := Some ''capterra_0_2'', content := Some ''Great tool'',
        author := Some ''Ann'', date := Str ''2024-03-15'', source := Some ''Capterra'' \<rparr>"]
  by (simp add: blank_review_def)

section \<open>Properties of the date-range filter\<close>

text \<open>
  What the filter computes: with both bounds present it keeps, in their order, the records
  whose raw date is a non-empty string that \<^verbatim>\<open>moment(date)\<close> reads as an instant between
  the instants of the two bounds, both ends included; with a bound absent it returns its
  input.
\<close>

lemma filterReviewsByDateRange_moment:
  "(truthy startDate \<and> truthy endDate \<longrightarrow>
      filterReviewsByDateRange l reviews startDate endDate =
        filter (\<lambda>r. truthy (as_option (date r)) \<and>
                 (\<exists>d s e. moment l (date r) = Some d \<and> moment l (of_option startDate) = Some s
                    \<and> moment l (of_option endDate) = Some e \<and> s \<le> d \<and> d \<le> e)) reviews)
   \<and> (\<not> truthy startDate \<or> \<not> truthy endDate \<longrightarrow>
        filterReviewsByDateRange l reviews startDate endDate = reviews)"
proof -
  have in_range: "isDateInRange l x s e =
      (\<exists>d s' e'. moment l x = Some d \<and> moment l s = Some s'
                    \<and> moment l e = Some e' \<and> s' \<le> d \<and> d \<le> e')" for x s e
    by (auto simp: isDateInRange_def split: option.splits)
  show ?thesis
    by (auto simp: filterReviewsByDateRange_def in_range intro!: filter_cong)
qed

lemmas range_eval = small_lib_def known_dates_def dated_def blank_review_def truthy_def
  filterReviewsByDateRange_def isDateInRange_def as_option_def of_option_def

text \<open>
  C3. The filter reads the raw date of the record with \<^verbatim>\<open>moment(date)\<close>, not the
  normalised date. The raw date \<^verbatim>\<open>13/02/2024\<close> is parsable: \<open>parseDate\<close> normalises it to
  2024-02-13, which lies in the range from 2024-01-31 to 2024-06-01. The filter keeps a
  record whose raw date is \<^verbatim>\<open>2024-02-13\<close> and drops the record whose raw date is
  \<^verbatim>\<open>13/02/2024\<close>.
\<close>

theorem filterReviewsByDateRange_drops_parsable_date:
  "parseDate small_lib (date (dated ''review'' (Some ''13/02/2024''))) = Some ''2024-02-13''
   \<and> filterReviewsByDateRange small_lib [dated ''review'' (Some ''2024-02-13'')]
        (Some ''2024-01-31'') (Some ''2024-06-01'')
      = [dated ''review'' (Some ''2024-02-13'')]
   \<and> filterReviewsByDateRange small_lib [dated ''review'' (Some ''13/02/2024'')]
        (Some ''2024-01-31'') (Some ''2024-06-01'')
      = []"
  by (simp add: range_eval parseDate_def date_formats_def or_empty_def)

text \<open>
  Witness for C3: both bounds are present, the record with the raw date \<^verbatim>\<open>13/02/2024\<close>
  is the one dropped, and the record with the raw date \<^verbatim>\<open>2024-02-13\<close> the one kept.
\<close>

theorem filterReviewsByDateRange_drops_parsable_date_witness:
  "truthy (Some ''2024-01-31'') \<and> truthy (Some ''2024-06-01'')
   \<and> length (filterReviewsByDateRange small_lib [dated ''review'' (Some ''13/02/2024'')]
        (Some ''2024-01-31'') (Some ''2024-06-01'')) = 0
   \<and> length (filterReviewsByDateRange small_lib [dated ''review'' (Some ''2024-02-13'')]
        (Some ''2024-01-31'') (Some ''2024-06-01'')) = 1"
  using filterReviewsByDateRange_drops_parsable_date by (simp add: truthy_def)

section \<open>Properties of binary64 rounding\<close>

lemma ilog2_up_lower: "1 \<le> x \<Longrightarrow> 2 powi (ilog2_up x) \<le> x"
proof (induction x rule: ilog2_up.induct)
  case (1 x)
  show ?case
  proof (cases "2 \<le> x")
    case True
    then have "2 powi (ilog2_up (x / 2)) \<le> x / 2" using 1 by simp
    then have "2 powi (ilog2_up (x / 2)) * 2 \<le> x" by simp
    then show ?thesis
      using True by (subst ilog2_up.simps) (simp add: power_int_add_1)
  next
    case False
    then show ?thesis using 1(2) by (subst ilog2_up.simps) simp
  qed
qed

lemma ilog2_down_lower: "0 < x \<Longrightarrow> x < 1 \<Longrightarrow> 2 powi (ilog2_down x) \<le> x"
proof (induction x rule: ilog2_down.induct)
  case (1 x)
  show ?case
  proof (cases "x * 2 < 1")
    case True
    then have "2 powi (ilog2_down (x * 2)) \<le> x * 2" using 1 by simp
    then have "2 powi (ilog2_down (x * 2)) / 2 \<le> x" by simp
    then show ?thesis
      using 1(2,3) by (subst ilog2_down.simps) (simp add: power_int_diff)
  next
    case False
    then have "ilog2_down (x * 2) = 0" by (subst ilog2_down.simps) simp
    then show ?thesis
      using 1(2,3) False by (subst ilog2_down.simps) (simp add: power_int_minus)
  qed
qed

lemma ilog2_lower: "0 < x \<Longrightarrow> 2 powi (ilog2 x) \<le> x"
  using ilog2_up_lower ilog2_down_lower by (cases "1 \<le> x") (auto simp: ilog2_def)

lemma round_half_even_le: "y \<le> of_int n \<Longrightarrow> round_half_even y \<le> n"
proof -
  assume a: "y \<le> of_int n"
  have f: "\<lfloor>y\<rfloor> \<le> n" using a by (simp add: floor_le_iff)
  show ?thesis
  proof (cases "\<lfloor>y\<rfloor> = n")
    case True
    then have "y - of_int \<lfloor>y\<rfloor> \<le> 0" using a by simp
    then show ?thesis using True by (simp add: round_half_even_def)
  next
    case False
    then have "\<lfloor>y\<rfloor> + 1 \<le> n" using f by simp
    then show ?thesis using f by (simp add: round_half_even_def)
  qed
qed

lemma round_half_even_ge: "of_int n \<le> y \<Longrightarrow> n \<le> round_half_even y"
proof -
  assume "of_int n \<le> y"
  then have "n \<le> \<lfloor>y\<rfloor>" by (simp add: le_floor_iff)
  then show ?thesis by (simp add: round_half_even_def)
qed

lemma round_half_even_near: "\<bar>of_int (round_half_even y) - y\<bar> \<le> 1 / 2"
proof -
  have lo: "of_int \<lfloor>y\<rfloor> \<le> y" by (rule of_int_floor_le)
  have hi: "y < of_int \<lfloor>y\<rfloor> + 1" using floor_correct [of y] by simp
  show ?thesis using lo hi by (simp add: round_half_even_def)
qed

lemma ilog2_le: "0 < x \<Longrightarrow> x < 2 powi (m + 1) \<Longrightarrow> ilog2 x \<le> m"
proof (rule ccontr)
  assume x: "0 < x" "x < 2 powi (m + 1)" and n: "\<not> ilog2 x \<le> m"
  then have "m + 1 \<le> ilog2 x" by simp
  then have "(2 :: rat) powi (m + 1) \<le> 2 powi (ilog2 x)" by (intro power_int_increasing) simp_all
  also have "\<dots> \<le> x" using x(1) by (rule ilog2_lower)
  finally show False using x(2) by simp
qed

lemma quantum_exp_le:
  assumes "0 \<le> x" "x < 2 powi (m + 1)" "- 1074 \<le> m - 52" "0 \<le> m"
  shows "quantum_exp x \<le> m - 52"
proof (cases "x = 0")
  case True
  have "ilog2 0 = 0" by (simp add: ilog2_def ilog2_down.simps)
  then show ?thesis using True assms by (simp add: quantum_exp_def)
next
  case False
  then have "ilog2 x \<le> m" using assms by (intro ilog2_le) simp_all
  then show ?thesis using assms by (simp add: quantum_exp_def)
qed

lemma fl_le:
  assumes "x \<le> of_int a" "quantum_exp x \<le> 0"
  shows "fl x \<le> of_int a"
proof -
  define e where "e = quantum_exp x"
  define q :: rat where "q = 2 powi e"
  have qpos: "0 < q" by (simp add: q_def)
  have inv: "1 / q = of_int (2 ^ nat (- e))"
    using assms(2) by (simp add: q_def e_def power_int_def field_simps)
  have "x / q \<le> of_int a / q" using assms(1) qpos by (simp add: divide_right_mono)
  also have "of_int a / q = of_int (a * 2 ^ nat (- e))"
  proof -
    have "of_int a / q = of_int a * (1 / q)" by simp
    then show ?thesis by (simp only: inv of_int_mult)
  qed
  finally have "round_half_even (x / q) \<le> a * 2 ^ nat (- e)" by (rule round_half_even_le)
  then have "(of_int (round_half_even (x / q)) :: rat) \<le> of_int (a * 2 ^ nat (- e))"
    by (simp only: of_int_le_iff)
  then have "of_int (round_half_even (x / q)) * q \<le> of_int (a * 2 ^ nat (- e)) * q"
    using qpos by (intro mult_right_mono) simp_all
  also have "of_int (a * 2 ^ nat (- e)) * q = of_int a"
  proof -
    have "of_int (a * 2 ^ nat (- e)) * q = of_int a * (1 / q) * q" by (simp only: inv of_int_mult)
    then show ?thesis using qpos by simp
  qed
  finally show ?thesis by (simp only: fl_def q_def e_def)
qed

lemma fl_ge:
  assumes "of_int a / 2 ^ j \<le> x" "quantum_exp x \<le> - int j"
  shows "of_int a / 2 ^ j \<le> fl x"
proof -
  define e where "e = quantum_exp x"
  define q :: rat where "q = 2 powi e"
  have qpos: "0 < q" by (simp add: q_def)
  have le: "int j \<le> - e" using assms(2) by (simp add: e_def)
  have inv: "1 / q = of_int (2 ^ nat (- e))"
    using le by (simp add: q_def power_int_def field_simps)
  have split: "(2 :: rat) ^ nat (- e) = 2 ^ j * 2 ^ (nat (- e) - j)"
    using le by (simp flip: power_add)
  have b: "(of_int a / 2 ^ j) / q = of_int (a * 2 ^ (nat (- e) - j))"
  proof -
    have "(of_int a / 2 ^ j) / q = of_int a / 2 ^ j * (1 / q)" by simp
    also have "\<dots> = of_int a / 2 ^ j * (2 ^ j * 2 ^ (nat (- e) - j))"
      using inv split by simp
    also have "\<dots> = of_int a * 2 ^ (nat (- e) - j)" by simp
    finally show ?thesis by simp
  qed
  have "(of_int a / 2 ^ j) / q \<le> x / q"
    using assms(1) qpos by (intro divide_right_mono) simp_all
  then have "of_int (a * 2 ^ (nat (- e) - j)) \<le> x / q" by (simp only: b)
  then have "a * 2 ^ (nat (- e) - j) \<le> round_half_even (x / q)" by (rule round_half_even_ge)
  then have "(of_int (a * 2 ^ (nat (- e) - j)) :: rat) \<le> of_int (round_half_even (x / q))"
    by (simp only: of_int_le_iff)
  then have "of_int (a * 2 ^ (nat (- e) - j)) * q \<le> of_int (round_half_even (x / q)) * q"
    using qpos by (intro mult_right_mono) simp_all
  moreover have "of_int (a * 2 ^ (nat (- e) - j)) * q = of_int a / 2 ^ j"
  proof -
    have "of_int (a * 2 ^ (nat (- e) - j)) * q = (of_int a / 2 ^ j) / q * q" by (simp only: b)
    then show ?thesis using qpos by simp
  qed
  ultimately have "of_int a / 2 ^ j \<le> of_int (round_half_even (x / q)) * q" by simp
  then show ?thesis by (simp only: fl_def q_def e_def)
qed

lemma fl_near: "\<bar>fl x - x\<bar> \<le> 2 powi quantum_exp x / 2"
proof -
  define q :: rat where "q = 2 powi quantum_exp x"
  define u :: rat where "u = of_int (round_half_even (x / q))"
  have qpos: "0 < q" by (simp add: q_def)
  have "\<bar>u - x / q\<bar> \<le> 1 / 2" unfolding u_def by (rule round_half_even_near)
  then have "\<bar>u - x / q\<bar> * q \<le> 1 / 2 * q"
    using qpos by (intro mult_right_mono) simp_all
  moreover have "\<bar>u - x / q\<bar> * q = \<bar>u * q - x\<bar>"
  proof -
    have "\<bar>u - x / q\<bar> * q = \<bar>(u - x / q) * q\<bar>" using qpos by (simp add: abs_mult)
    also have "(u - x / q) * q = u * q - x" using qpos by (simp add: left_diff_distrib)
    finally show ?thesis .
  qed
  ultimately have "\<bar>u * q - x\<bar> \<le> q / 2" by simp
  then show ?thesis by (simp add: fl_def q_def u_def)
qed

lemma fl_zero: "fl 0 = 0"
  by (simp add: fl_def round_half_even_def)

lemma quantum_exp_scaled:
  assumes "0 < x" "x \<le> 5"
  shows "quantum_exp (x * 10) \<le> - 47"
proof -
  have "x * 10 < 2 powi (5 + 1)" using assms by simp
  then have "quantum_exp (x * 10) \<le> 5 - 52" using assms by (intro quantum_exp_le) simp_all
  then show ?thesis by simp
qed

lemma quantum_exp_tenths:
  assumes "0 \<le> k" "k \<le> 50"
  shows "quantum_exp (of_int k / 10) \<le> - 50"
proof -
  have "(of_int k :: rat) \<le> of_int 50" using assms by (simp only: of_int_le_iff)
  then have "(of_int k :: rat) / 10 < 2 powi (2 + 1)" by simp
  moreover have "(0 :: rat) \<le> of_int k / 10" using assms by simp
  ultimately have "quantum_exp (of_int k / 10) \<le> 2 - 52" by (intro quantum_exp_le) simp_all
  then show ?thesis by simp
qed

lemma Math_round_scaled:
  assumes "0 < x" "x \<le> 5"
  shows "0 \<le> Math_round (fl (x * 10)) \<and> Math_round (fl (x * 10)) \<le> 50"
proof -
  have q: "quantum_exp (x * 10) \<le> 0" using quantum_exp_scaled [OF assms] by simp
  have "x * 10 \<le> of_int 50" using assms by simp
  then have hi: "fl (x * 10) \<le> of_int 50" using q by (rule fl_le)
  have "of_int 0 / 2 ^ 0 \<le> x * 10" using assms by simp
  then have "of_int 0 / 2 ^ 0 \<le> fl (x * 10)" using q by (intro fl_ge) simp_all
  then have lo: "0 \<le> fl (x * 10)" by simp
  have "0 \<le> fl (x * 10) + 1 / 2" using lo by simp
  then have a: "0 \<le> \<lfloor>fl (x * 10) + 1 / 2\<rfloor>" by simp
  have "fl (x * 10) + 1 / 2 < 51" using hi by simp
  then have "\<lfloor>fl (x * 10) + 1 / 2\<rfloor> < 51" by (simp add: floor_less_iff)
  with a show ?thesis by (simp add: Math_round_def)
qed

lemma fl_tenths:
  assumes "1 \<le> k" "k \<le> 50"
  shows "0 < fl (of_int k / 10) \<and> fl (of_int k / 10) \<le> 5"
proof -
  have q: "quantum_exp (of_int k / 10) \<le> - 50" using assms by (intro quantum_exp_tenths) simp_all
  have "(of_int 1 :: rat) \<le> of_int k" using assms by (simp only: of_int_le_iff)
  then have "(of_int 1 :: rat) / 2 ^ 4 \<le> of_int k / 10" by simp
  then have "(of_int 1 :: rat) / 2 ^ 4 \<le> fl (of_int k / 10)" using q by (intro fl_ge) simp_all
  then have lo: "0 < fl (of_int k / 10)" by simp
  have "(of_int k :: rat) \<le> of_int 50" using assms by (simp only: of_int_le_iff)
  then have "(of_int k :: rat) / 10 \<le> of_int 5" by simp
  then have "fl (of_int k / 10) \<le> of_int 5" using q by (intro fl_le) simp_all
  with lo show ?thesis by simp
qed

lemma normalizeRating_near:
  assumes "0 < x" "x \<le> 5"
  shows "\<bar>fl (of_int (Math_round (fl (x * 10))) / 10) - x\<bar> \<le> 1 / 20 + 1 / 2 ^ 50"
proof -
  define y where "y = fl (x * 10)"
  define k where "k = Math_round y"
  have r: "0 \<le> k \<and> k \<le> 50" using Math_round_scaled [OF assms] by (simp add: k_def y_def)
  have "\<bar>y - x * 10\<bar> \<le> 2 powi quantum_exp (x * 10) / 2" unfolding y_def by (rule fl_near)
  also have "\<dots> \<le> 2 powi (- 47) / 2"
    using quantum_exp_scaled [OF assms]
    by (intro divide_right_mono power_int_increasing) simp_all
  finally have a: "\<bar>y - x * 10\<bar> \<le> 1 / 2 ^ 48" by (simp add: power_int_minus)
  have lo: "of_int \<lfloor>y + 1 / 2\<rfloor> \<le> y + 1 / 2" by (rule of_int_floor_le)
  have hi: "y + 1 / 2 < of_int \<lfloor>y + 1 / 2\<rfloor> + 1" using floor_correct [of "y + 1 / 2"] by simp
  have b: "\<bar>of_int k - y\<bar> \<le> 1 / 2" unfolding k_def Math_round_def using lo hi by linarith
  have "\<bar>fl (of_int k / 10) - of_int k / 10\<bar> \<le> 2 powi quantum_exp (of_int k / 10) / 2"
    by (rule fl_near)
  also have "\<dots> \<le> 2 powi (- 50) / 2"
    using quantum_exp_tenths [of k] r
    by (intro divide_right_mono power_int_increasing) simp_all
  finally have c: "\<bar>fl (of_int k / 10) - of_int k / 10\<bar> \<le> 1 / 2 ^ 51"
    by (simp add: power_int_minus)
  have chain: "\<bar>f - x\<bar> \<le> C + (1 / 2 + A) / 10"
    if "\<bar>y - x * 10\<bar> \<le> A" "\<bar>n - y\<bar> \<le> 1 / 2" "\<bar>f - n / 10\<bar> \<le> C" for f n A C :: rat
    using that unfolding abs_le_iff by (auto simp: field_simps)
  have "\<bar>fl (of_int k / 10) - x\<bar> \<le> 1 / 2 ^ 51 + (1 / 2 + 1 / 2 ^ 48) / 10"
    using a b c by (rule chain)
  also have "\<dots> \<le> 1 / 20 + 1 / 2 ^ 50" by simp
  finally show ?thesis by (simp add: k_def y_def)
qed

lemma rating_stored:
  "rating (createReviewObject l now d) =
     (case rating d of
        None \<Rightarrow> None
      | Some x \<Rightarrow>
          if x \<le> 0 then None
          else if x > 5 then Some 5
          else if Math_round (fl (x * 10)) = 0 then None
          else Some (fl (of_int (Math_round (fl (x * 10))) / 10)))"
proof (cases "rating d")
  case None
  then show ?thesis by (simp add: createReviewObject_def normalizeRating_def)
next
  case (Some x)
  show ?thesis
  proof (cases "0 < x \<and> x \<le> 5")
    case False
    then show ?thesis
      using Some by (auto simp: createReviewObject_def normalizeRating_def Let_def)
  next
    case True
    then have r: "0 \<le> Math_round (fl (x * 10)) \<and> Math_round (fl (x * 10)) \<le> 50"
      by (intro Math_round_scaled) simp_all
    show ?thesis
    proof (cases "Math_round (fl (x * 10)) = 0")
      case z: True
      then show ?thesis
        using Some True by (simp add: createReviewObject_def normalizeRating_def Let_def fl_zero)
    next
      case nz: False
      then have "0 < fl (of_int (Math_round (fl (x * 10))) / 10)"
        using r fl_tenths [of "Math_round (fl (x * 10))"] by simp
      then show ?thesis
        using Some True nz by (simp add: createReviewObject_def normalizeRating_def Let_def)
    qed
  qed
qed

lemma fl_85_2: "fl (85 / 2) = 85 / 2" by code_simp
lemma fl_43_10: "fl (43 / 10) = 4841369599423283 / 1125899906842624" by code_simp
lemma fl_5_16: "fl (5 / 16) = 5 / 16" by code_simp
lemma fl_tie: "fl (10133099161583615 / 2251799813685248) = 9 / 2" by code_simp
lemma fl_half: "fl (1 / 2) = 1 / 2" by code_simp

section \<open>Properties of rating normalisation\<close>

text \<open>
  C9 (amended). The rating stored in the output record is \<^verbatim>\<open>null\<close> or the binary64
  number nearest to one of the tenths 0.1, 0.2, ..., 5.0, so it lies in the interval from 0
  (excluded) to 5: a missing rating, a rating of zero or below, and a rating for which
  \<^verbatim>\<open>Math.round(rating * 10)\<close> is 0 are stored as \<^verbatim>\<open>null\<close>; a rating above 5 is stored
  as 5; every other rating \<open>x\<close> is stored as \<^verbatim>\<open>Math.round(x * 10) / 10\<close>, computed in
  binary64, which differs from \<open>x\<close> by at most one twentieth plus 2 to the power -50.
\<close>

theorem createReviewObject_rating:
  "rating (createReviewObject l now d) =
     (case rating d of
        None \<Rightarrow> None
      | Some x \<Rightarrow>
          if x \<le> 0 then None
          else if x > 5 then Some 5
          else if Math_round (fl (x * 10)) = 0 then None
          else Some (fl (of_int (Math_round (fl (x * 10))) / 10)))
   \<and> (\<forall>q. rating (createReviewObject l now d) = Some q
          \<longrightarrow> 0 < q \<and> q \<le> 5 \<and> (\<exists>k::int. 1 \<le> k \<and> k \<le> 50 \<and> q = fl (of_int k / 10)))
   \<and> (\<forall>x q. rating d = Some x \<and> 0 < x \<and> x \<le> 5
            \<and> rating (createReviewObject l now d) = Some q
          \<longrightarrow> \<bar>q - x\<bar> \<le> 1 / 20 + 1 / 2 ^ 50)"
proof -
  note eq = rating_stored [of l now d]
  have bounds: "0 < q \<and> q \<le> 5 \<and> (\<exists>k::int. 1 \<le> k \<and> k \<le> 50 \<and> q = fl (of_int k / 10))"
    if "rating (createReviewObject l now d) = Some q" for q
  proof (cases "rating d")
    case None
    then show ?thesis using that eq by simp
  next
    case (Some x)
    show ?thesis
    proof (cases "x \<le> 0")
      case True
      then show ?thesis using that eq Some by simp
    next
      case False
      show ?thesis
      proof (cases "x > 5")
        case True
        then have q: "q = 5" using that eq Some False by simp
        have "fl (of_int 50 / 10) = 5" by code_simp
        then have "(1::int) \<le> 50 \<and> (50::int) \<le> 50 \<and> q = fl (of_int 50 / 10)" using q by simp
        then have "\<exists>k::int. 1 \<le> k \<and> k \<le> 50 \<and> q = fl (of_int k / 10)" by (rule exI)
        then show ?thesis using q by simp
      next
        case le: False
        define k where "k = Math_round (fl (x * 10))"
        have r: "0 \<le> k \<and> k \<le> 50"
          unfolding k_def using False le by (intro Math_round_scaled) simp_all
        have nz: "k \<noteq> 0" and q: "q = fl (of_int k / 10)"
          using that eq Some False le by (auto simp: k_def split: if_splits)
        have k: "1 \<le> k \<and> k \<le> 50" using r nz by linarith
        then have "0 < q \<and> q \<le> 5" using fl_tenths [of k] q by simp
        then show ?thesis using k q by blast
      qed
    qed
  qed
  have near: "\<bar>q - x\<bar> \<le> 1 / 20 + 1 / 2 ^ 50"
    if "rating d = Some x" "0 < x" "x \<le> 5" "rating (createReviewObject l now d) = Some q"
    for x q
  proof -
    have "q = fl (of_int (Math_round (fl (x * 10))) / 10)"
      using that eq by (auto split: if_splits)
    then show ?thesis using normalizeRating_near [OF that(2,3)] by simp
  qed
  from eq bounds near show ?thesis by blast
qed

text \<open>
  C9 (as stated). A rating below 0 is clamped to 0 by \<open>normalizeRating\<close>, and the
  \<^verbatim>\<open>|| null\<close> of \<open>createReviewObject\<close> then stores \<^verbatim>\<open>null\<close>, not 0. And the binary64
  rating 0.44999999999999996 is stored as 0.5, although 0.4 is the nearer tenth: the
  product with 10 rounds to 4.5 in binary64, and \<^verbatim>\<open>Math.round(4.5)\<close> is 5.
\<close>

theorem createReviewObject_rating_counterexample:
  "normalizeRating (Some (- 1)) 5 = 0
   \<and> rating (createReviewObject small_lib ''2025-08-14 09:00:00''
        (blank_review \<lparr> rating := Some (- 1) \<rparr>)) = None
   \<and> rating (createReviewObject small_lib ''2025-08-14 09:00:00''
        (blank_review \<lparr> rating := Some (8106479329266892 / 2 ^ 54) \<rparr>)) = Some (1 / 2)
   \<and> \<bar>4 / 10 - 8106479329266892 / 2 ^ 54\<bar> < \<bar>1 / 2 - (8106479329266892 / 2 ^ 54 :: rat)\<bar>"
  by (simp add: createReviewObject_def normalizeRating_def blank_review_def fl_tie fl_half
      Math_round_def floor_eq_iff Let_def)

text \<open>Witness for C9: the ratings 4.25, 7 and 0.03125.\<close>

theorem createReviewObject_rating_witness:
  "rating (createReviewObject small_lib ''2025-08-14 09:00:00''
        (blank_review \<lparr> rating := Some (17 / 4) \<rparr>))
     = Some (4841369599423283 / 1125899906842624)
   \<and> rating (createReviewObject small_lib ''2025-08-14 09:00:00''
        (blank_review \<lparr> rating := Some 7 \<rparr>)) = Some 5
   \<and> rating (createReviewObject small_lib ''2025-08-14 09:00:00''
        (blank_review \<lparr> rating := Some (1 / 32) \<rparr>)) = None"
  using createReviewObject_rating [of small_lib "''2025-08-14 09:00:00''"
          "blank_review \<lparr> rating := Some (17 / 4) \<rparr>"]
        createReviewObject_rating [of small_lib "''2025-08-14 09:00:00''"
          "blank_review \<lparr> rating := Some 7 \<rparr>"]
        createReviewObject_rating [of small_lib "''2025-08-14 09:00:00''"
          "blank_review \<lparr> rating := Some (1 / 32) \<rparr>"]
  by (simp add: blank_review_def Math_round_def floor_eq_iff fl_85_2 fl_43_10 fl_5_16)

section \<open>Properties of the final ordering\<close>

text \<open>
  The sort on a consistent comparator. When the comparator is the difference of a key on the
  elements of the array, the first run is sorted by the key, the binary search finds the
  place behind the last element whose key is not greater than the pivot's, and an array of
  fewer than 64 elements comes out as the stable sort by the key. For the comparator of
  the program that is the case when \<^verbatim>\<open>moment\<close> reads the raw date of every record: the
  records then come out newest first, records of the same instant in their merge order.
\<close>

lemma run_tail_append: "run_tail d cmp p xs = (run, remainder) \<Longrightarrow> xs = run @ remainder"
proof (induction xs arbitrary: p run remainder)
  case Nil
  then show ?case by simp
next
  case (Cons c cs)
  then show ?case by (auto split: if_splits prod.splits)
qed

lemma run_tail_ascending:
  assumes "\<And>a b. a \<in> S \<Longrightarrow> b \<in> S \<Longrightarrow> cmp a b = k a - k b"
    and "set (p # xs) \<subseteq> S" and "run_tail False cmp p xs = (run, remainder)"
  shows "sorted (map k (p # run))"
  using assms(2,3)
proof (induction xs arbitrary: p run remainder)
  case Nil
  then show ?case by simp
next
  case (Cons c cs)
  show ?case
  proof (cases "cmp c p \<ge> 0")
    case True
    obtain r' m' where rt: "run_tail False cmp c cs = (r', m')" by (cases "run_tail False cmp c cs")
    have run: "run = c # r'" using Cons.prems(2) True rt by simp
    have "cmp c p = k c - k p" using Cons.prems(1) by (intro assms(1)) auto
    then have le: "k p \<le> k c" using True by simp
    have "sorted (map k (c # r'))" using Cons.IH [OF _ rt] Cons.prems(1) by simp
    then show ?thesis using le run by auto
  next
    case False
    then show ?thesis using Cons.prems(2) by simp
  qed
qed

lemma run_tail_descending:
  assumes "\<And>a b. a \<in> S \<Longrightarrow> b \<in> S \<Longrightarrow> cmp a b = k a - k b"
    and "set (p # xs) \<subseteq> S" and "run_tail True cmp p xs = (run, remainder)"
  shows "sorted_wrt (\<lambda>a b. k b < k a) (p # run)"
  using assms(2,3)
proof (induction xs arbitrary: p run remainder)
  case Nil
  then show ?case by simp
next
  case (Cons c cs)
  show ?case
  proof (cases "cmp c p < 0")
    case True
    obtain r' m' where rt: "run_tail True cmp c cs = (r', m')" by (cases "run_tail True cmp c cs")
    have run: "run = c # r'" using Cons.prems(2) True rt by simp
    have "cmp c p = k c - k p" using Cons.prems(1) by (intro assms(1)) auto
    then have lt: "k c < k p" using True by simp
    have "sorted_wrt (\<lambda>a b. k b < k a) (c # r')" using Cons.IH [OF _ rt] Cons.prems(1) by simp
    then show ?thesis using lt run by auto
  next
    case False
    then show ?thesis using Cons.prems(2) by simp
  qed
qed

lemma filter_rev_distinct:
  "distinct (map k ys) \<Longrightarrow> filter (\<lambda>x. k x = v) (rev ys) = filter (\<lambda>x. k x = v) ys"
proof (induction ys)
  case Nil
  show ?case by simp
next
  case (Cons y ys)
  have "filter (\<lambda>x. k x = v) ys = []" if kv: "k y = v"
  proof -
    have "k y \<notin> k ` set ys" using Cons.prems by simp
    then have "\<forall>x \<in> set ys. k x \<noteq> v" using kv by blast
    then show ?thesis by (simp add: filter_empty_conv)
  qed
  then show ?case using Cons by auto
qed

lemma descending_sorted:
  assumes "sorted_wrt (\<lambda>a b. k b < k a) ys"
  shows "sorted (map k (rev ys))" and "distinct (map k ys)"
proof -
  have "sorted_wrt (\<lambda>a b. k a < k b) (rev ys)" using assms by (simp add: sorted_wrt_rev)
  then have "sorted_wrt (\<lambda>a b. k a \<le> k b) (rev ys)"
    by (rule sorted_wrt_mono_rel [rotated]) auto
  then show "sorted (map k (rev ys))" by (simp add: sorted_map)
  show "distinct (map k ys)" using assms by (induction ys) auto
qed

lemma CountAndMakeRun_sorted:
  assumes "\<And>a b. a \<in> S \<Longrightarrow> b \<in> S \<Longrightarrow> cmp a b = k a - k b"
    and "set xs \<subseteq> S" and "CountAndMakeRun cmp xs = (run, remainder)"
  shows "sorted (map k run)"
    and "filter (\<lambda>x. k x = v) (run @ remainder) = filter (\<lambda>x. k x = v) xs"
    and "mset run + mset remainder = mset xs"
proof -
  have "sorted (map k run) \<and> filter (\<lambda>x. k x = v) (run @ remainder) = filter (\<lambda>x. k x = v) xs
      \<and> mset run + mset remainder = mset xs"
  proof (cases "(cmp, xs)" rule: CountAndMakeRun.cases)
    case (1 c)
    then show ?thesis using assms(3) by simp
  next
    case (2 c x)
    then show ?thesis using assms(3) by auto
  next
    case (3 c low high rest)
    then have xs: "xs = low # high # rest" and c: "c = cmp" by simp_all
    obtain r m where rt: "run_tail (cmp high low < 0) cmp high rest = (r, m)"
      by (cases "run_tail (cmp high low < 0) cmp high rest")
    have app: "rest = r @ m" using rt by (rule run_tail_append)
    have hl: "cmp high low = k high - k low" using assms(2) xs by (intro assms(1)) auto
    have sub: "set (high # rest) \<subseteq> S" using assms(2) xs by auto
    show ?thesis
    proof (cases "cmp high low < 0")
      case True
      have out: "run = rev (low # high # r)" "remainder = m"
        using assms(3) xs rt True by simp_all
      have "sorted_wrt (\<lambda>a b. k b < k a) (high # r)"
        using assms(1) sub rt True by (intro run_tail_descending [where cmp = cmp and S = S]) auto
      then have d: "sorted_wrt (\<lambda>a b. k b < k a) (low # high # r)"
        using True hl by auto
      have s: "sorted (map k run)" unfolding out using d by (rule descending_sorted(1))
      have fr: "filter (\<lambda>x. k x = v) (rev (low # high # r))
          = filter (\<lambda>x. k x = v) (low # high # r)"
        using descending_sorted(2) [OF d] by (rule filter_rev_distinct)
      have "filter (\<lambda>x. k x = v) (run @ remainder)
          = filter (\<lambda>x. k x = v) (rev (low # high # r)) @ filter (\<lambda>x. k x = v) m"
        by (simp only: out filter_append)
      also have "\<dots> = filter (\<lambda>x. k x = v) (low # high # r) @ filter (\<lambda>x. k x = v) m"
        by (simp only: fr)
      also have "\<dots> = filter (\<lambda>x. k x = v) ((low # high # r) @ m)"
        by (simp only: filter_append)
      also have "(low # high # r) @ m = xs" using xs app by simp
      finally have f: "filter (\<lambda>x. k x = v) (run @ remainder) = filter (\<lambda>x. k x = v) xs" .
      have "mset run + mset remainder = mset xs" using xs app out by simp
      with s f show ?thesis by simp
    next
      case False
      have out: "run = low # high # r" "remainder = m"
        using assms(3) xs rt False by simp_all
      have "sorted (map k (high # r))"
        using assms(1) sub rt False by (intro run_tail_ascending [where cmp = cmp and S = S]) auto
      then have s: "sorted (map k run)" using False hl out by auto
      show ?thesis using s xs app out by simp
    qed
  qed
  then show "sorted (map k run)"
    and "filter (\<lambda>x. k x = v) (run @ remainder) = filter (\<lambda>x. k x = v) xs"
    and "mset run + mset remainder = mset xs"
    by simp_all
qed

lemma insertion_point_spec:
  "\<forall>y \<in> set ys. cmp pivot y = k pivot - k y \<Longrightarrow> sorted (map k ys)
    \<Longrightarrow> left \<le> right \<Longrightarrow> right \<le> length ys
    \<Longrightarrow> \<forall>i<left. k (ys ! i) \<le> k pivot
    \<Longrightarrow> \<forall>i. right \<le> i \<and> i < length ys \<longrightarrow> k pivot < k (ys ! i)
    \<Longrightarrow> insertion_point cmp pivot ys left right \<le> length ys
        \<and> (\<forall>i < insertion_point cmp pivot ys left right. k (ys ! i) \<le> k pivot)
        \<and> (\<forall>i. insertion_point cmp pivot ys left right \<le> i \<and> i < length ys
               \<longrightarrow> k pivot < k (ys ! i))"
proof (induction cmp pivot ys left right rule: insertion_point.induct)
  case (1 cmp pivot ys left right)
  note c = "1.prems"(1) and s = "1.prems"(2)
  let ?mid = "left + (right - left) div 2"
  show ?case
  proof (cases "left < right")
    case False
    then have "insertion_point cmp pivot ys left right = left"
      by (subst insertion_point.simps) simp
    moreover have "left = right" using False "1.prems"(3) by simp
    ultimately show ?thesis using "1.prems" by simp
  next
    case True
    have mid: "left \<le> ?mid" "?mid < right" "?mid < length ys"
      using True "1.prems"(4) by simp_all
    have cm: "cmp pivot (ys ! ?mid) = k pivot - k (ys ! ?mid)" using mid(3) c by simp
    have mono: "i \<le> j \<Longrightarrow> j < length ys \<Longrightarrow> k (ys ! i) \<le> k (ys ! j)" for i j
      using s sorted_nth_mono [of "map k ys" i j] by simp
    show ?thesis
    proof (cases "cmp pivot (ys ! ?mid) < 0")
      case lt: True
      have eq: "insertion_point cmp pivot ys left right = insertion_point cmp pivot ys left ?mid"
        using True lt by (subst insertion_point.simps) simp
      have inv: "\<forall>i. ?mid \<le> i \<and> i < length ys \<longrightarrow> k pivot < k (ys ! i)"
      proof (intro allI impI)
        fix i assume a: "?mid \<le> i \<and> i < length ys"
        have "k (ys ! ?mid) \<le> k (ys ! i)" using a by (intro mono) simp_all
        then show "k pivot < k (ys ! i)" using lt cm by simp
      qed
      have le: "left \<le> ?mid" "?mid \<le> length ys" using mid by simp_all
      show ?thesis
        unfolding eq
        by (rule "1.IH"(1) [OF True lt c s le "1.prems"(5) inv])
    next
      case ge: False
      have eq: "insertion_point cmp pivot ys left right
          = insertion_point cmp pivot ys (?mid + 1) right"
        using True ge by (subst insertion_point.simps) simp
      have inv: "\<forall>i < ?mid + 1. k (ys ! i) \<le> k pivot"
      proof (intro allI impI)
        fix i assume a: "i < ?mid + 1"
        have "k (ys ! i) \<le> k (ys ! ?mid)" using a mid(3) by (intro mono) simp_all
        then show "k (ys ! i) \<le> k pivot" using ge cm by simp
      qed
      have le: "?mid + 1 \<le> right" using mid by simp
      show ?thesis
        unfolding eq
        by (rule "1.IH"(2) [OF True ge c s le "1.prems"(4) inv "1.prems"(6)])
    qed
  qed
qed

lemma insert_pivot_sorted:
  assumes "\<And>y. y \<in> set ys \<Longrightarrow> cmp pivot y = k pivot - k y"
    and "sorted (map k ys)"
  shows "sorted (map k (insert_pivot cmp ys pivot))"
    and "filter (\<lambda>x. k x = v) (insert_pivot cmp ys pivot) = filter (\<lambda>x. k x = v) (ys @ [pivot])"
    and "mset (insert_pivot cmp ys pivot) = mset ys + {#pivot#}"
    and "set (insert_pivot cmp ys pivot) = insert pivot (set ys)"
proof -
  define p where "p = insertion_point cmp pivot ys 0 (length ys)"
  have c: "\<forall>y \<in> set ys. cmp pivot y = k pivot - k y" using assms(1) by blast
  have spec: "p \<le> length ys \<and> (\<forall>i < p. k (ys ! i) \<le> k pivot)
      \<and> (\<forall>i. p \<le> i \<and> i < length ys \<longrightarrow> k pivot < k (ys ! i))"
    unfolding p_def using c assms(2) by (intro insertion_point_spec) simp_all
  have out: "insert_pivot cmp ys pivot = take p ys @ [pivot] @ drop p ys"
    by (simp add: insert_pivot_def p_def)
  have lo: "k x \<le> k pivot" if mem: "x \<in> set (take p ys)" for x
  proof -
    obtain i where "i < length (take p ys)" "take p ys ! i = x"
      using mem unfolding in_set_conv_nth by blast
    then have "i < p" "ys ! i = x" by simp_all
    then show ?thesis using spec by blast
  qed
  have hi: "k pivot < k x" if mem: "x \<in> set (drop p ys)" for x
  proof -
    obtain i where i: "i < length (drop p ys)" "drop p ys ! i = x"
      using mem unfolding in_set_conv_nth by blast
    then have "p \<le> p + i \<and> p + i < length ys" "ys ! (p + i) = x" using spec by simp_all
    then show ?thesis using spec by blast
  qed
  have ys: "ys = take p ys @ drop p ys" by simp
  have "sorted (map k (take p ys @ drop p ys))" using assms(2) by simp
  then have st: "sorted (map k (take p ys))" "sorted (map k (drop p ys))"
    "\<forall>x \<in> set (take p ys). \<forall>y \<in> set (drop p ys). k x \<le> k y"
    unfolding map_append sorted_append by auto
  have "sorted (map k (take p ys) @ [k pivot] @ map k (drop p ys))"
    unfolding sorted_append using st lo hi by (auto simp: less_imp_le)
  then show "sorted (map k (insert_pivot cmp ys pivot))"
    unfolding out by simp
  have split: "filter (\<lambda>x. k x = v) ys
      = filter (\<lambda>x. k x = v) (take p ys) @ filter (\<lambda>x. k x = v) (drop p ys)"
    by (simp flip: filter_append)
  have "k pivot = v \<Longrightarrow> filter (\<lambda>x. k x = v) (drop p ys) = []"
    using hi by (simp add: filter_empty_conv) fastforce
  then show "filter (\<lambda>x. k x = v) (insert_pivot cmp ys pivot)
      = filter (\<lambda>x. k x = v) (ys @ [pivot])"
    unfolding out using split by auto
  have "mset ys = mset (take p ys) + mset (drop p ys)"
    by (simp flip: mset_append)
  then show "mset (insert_pivot cmp ys pivot) = mset ys + {#pivot#}"
    unfolding out by simp
  have "set ys = set (take p ys) \<union> set (drop p ys)"
    by (simp flip: set_append)
  then show "set (insert_pivot cmp ys pivot) = insert pivot (set ys)"
    unfolding out by auto
qed

lemma BinaryInsertionSort_sorted:
  assumes "\<And>a b. a \<in> S \<Longrightarrow> b \<in> S \<Longrightarrow> cmp a b = k a - k b"
  shows "set run \<union> set remainder \<subseteq> S \<Longrightarrow> sorted (map k run)
    \<Longrightarrow> sorted (map k (BinaryInsertionSort cmp run remainder))
        \<and> filter (\<lambda>x. k x = v) (BinaryInsertionSort cmp run remainder)
            = filter (\<lambda>x. k x = v) (run @ remainder)
        \<and> mset (BinaryInsertionSort cmp run remainder) = mset run + mset remainder"
proof (induction remainder arbitrary: run)
  case Nil
  then show ?case by (simp add: BinaryInsertionSort_def)
next
  case (Cons x xs)
  have c: "\<And>y. y \<in> set run \<Longrightarrow> cmp x y = k x - k y"
    using Cons.prems(1) by (intro assms) auto
  note ins = insert_pivot_sorted [of run cmp x k, OF c Cons.prems(2)]
  have sub: "set (insert_pivot cmp run x) \<union> set xs \<subseteq> S"
    using Cons.prems(1) ins(4) by auto
  have step: "BinaryInsertionSort cmp run (x # xs)
      = BinaryInsertionSort cmp (insert_pivot cmp run x) xs"
    by (simp add: BinaryInsertionSort_def)
  show ?case
    unfolding step
    using Cons.IH [OF sub ins(1)] ins(2) [of v] ins(3) by simp
qed

lemma Array_sort_consistent:
  assumes "\<And>a b. a \<in> set xs \<Longrightarrow> b \<in> set xs \<Longrightarrow> cmp a b = k a - k b"
    and "length xs < 64"
  shows "Array_sort f cmp xs = sort_key k xs"
proof -
  obtain run remainder where cr: "CountAndMakeRun cmp xs = (run, remainder)"
    by (cases "CountAndMakeRun cmp xs")
  note r = CountAndMakeRun_sorted [where S = "set xs" and cmp = cmp and k = k, OF assms(1) _ cr]
  have ms: "mset run + mset remainder = mset xs" using r(3) by simp
  then have "set_mset (mset run + mset remainder) = set_mset (mset xs)" by simp
  then have sub: "set run \<union> set remainder \<subseteq> set xs" by auto
  have s: "sorted (map k run)" using r(1) by simp
  let ?out = "BinaryInsertionSort cmp run remainder"
  have b: "sorted (map k ?out)"
    "\<And>v. filter (\<lambda>x. k x = v) ?out = filter (\<lambda>x. k x = v) (run @ remainder)"
    "mset ?out = mset run + mset remainder"
    using BinaryInsertionSort_sorted [where S = "set xs" and cmp = cmp and k = k, OF assms(1) sub s]
    by simp_all
  have out: "Array_sort f cmp xs = ?out" using assms(2) cr by (simp add: Array_sort_def)
  have st: "filter (\<lambda>x. k y = k x) ?out = filter (\<lambda>x. k y = k x) xs" for y
  proof -
    have "filter (\<lambda>x. k x = k y) ?out = filter (\<lambda>x. k x = k y) xs"
      using b(2) [of "k y"] r(2) [of "k y"] by simp
    moreover have "(\<lambda>x. k y = k x) = (\<lambda>x. k x = k y)" by auto
    ultimately show ?thesis by simp
  qed
  have "sort_key k xs = ?out"
    using b(3) ms st b(1) by (intro properties_for_sort_key) simp_all
  then show ?thesis using out by simp
qed

lemma Array_sort_valid_dates:
  assumes "\<forall>r \<in> set xs. moment l (date r) \<noteq> None" and "length xs < 64"
  shows "Array_sort f (compareReviews l) xs = sort_key (\<lambda>r. - the (moment l (date r))) xs"
proof (rule Array_sort_consistent [OF _ assms(2)])
  fix a b
  assume "a \<in> set xs" "b \<in> set xs"
  then have "moment l (date a) \<noteq> None" "moment l (date b) \<noteq> None"
    using assms(1) by blast+
  then obtain da db where "moment l (date a) = Some da" "moment l (date b) = Some db"
    by auto
  then show "compareReviews l a b = - the (moment l (date a)) - - the (moment l (date b))"
    by (simp add: compareReviews_def)
qed

lemmas small_moment =
  small_lib_def known_dates_def dated_def blank_review_def

lemmas sort_eval = Array_sort_def BinaryInsertionSort_def insert_pivot_def
  insertion_point.simps compareReviews_def

text \<open>
  The sort at work on four records, the third without a date: the first two form a
  descending run and are swapped, the undated record stays behind them, and the binary
  search places the fourth record between the first two without looking at the undated
  one.
\<close>

lemma Array_sort_binary_insertion:
  "Array_sort (\<lambda>cmp xs. xs) (compareReviews small_lib)
      [dated ''r0'' (Some ''2024-01-01''), dated ''r1'' (Some ''2024-06-01''),
       dated ''r2'' None, dated ''r3'' (Some ''2024-01-31'')]
    = [dated ''r1'' (Some ''2024-06-01''), dated ''r3'' (Some ''2024-01-31''),
       dated ''r0'' (Some ''2024-01-01''), dated ''r2'' None]"
  by (simp add: sort_eval small_moment)

text \<open>
  C2. The comparator answers 0 for every pair with a date that \<^verbatim>\<open>moment\<close> does not
  read, and it reads the raw date, not the normalised one. First, an undated record
  between an older and a newer one: the three form one run and stay where they are, so the
  output is not newest first. Second, the raw date \<^verbatim>\<open>13/02/2024\<close> is not read by
  \<^verbatim>\<open>moment\<close> but is normalised to 2024-02-13 in the output, so the final output holds
  2024-01-01 directly before 2024-02-13.
\<close>

theorem Array_sort_not_newest_first:
  "Array_sort (\<lambda>cmp xs. xs) (compareReviews small_lib)
      [dated ''older'' (Some ''2024-01-01''), dated ''undated'' None,
       dated ''newer'' (Some ''2024-06-01'')]
    = [dated ''older'' (Some ''2024-01-01''), dated ''undated'' None,
       dated ''newer'' (Some ''2024-06-01'')]
   \<and> moment small_lib (date (dated ''older'' (Some ''2024-01-01''))) = Some 1704067200000
   \<and> moment small_lib (date (dated ''newer'' (Some ''2024-06-01''))) = Some 1717200000000
   \<and> map date (finalReviews
        (small_env (fixed_scraper ''G2Scraper'' (Inr [])) (Inr ''output/slack_reviews.json''))
        [dated ''older'' (Some ''2024-01-01''), dated ''newer'' (Some ''13/02/2024'')])
      = [Str ''2024-01-01'', Str ''2024-02-13'']"
proof -
  have a: "Array_sort (\<lambda>cmp xs. xs) (compareReviews small_lib)
      [dated ''older'' (Some ''2024-01-01''), dated ''undated'' None,
       dated ''newer'' (Some ''2024-06-01'')]
    = [dated ''older'' (Some ''2024-01-01''), dated ''undated'' None,
       dated ''newer'' (Some ''2024-06-01'')]"
    by (simp add: sort_eval small_moment)
  have b: "moment small_lib (date (dated ''older'' (Some ''2024-01-01''))) = Some 1704067200000"
    "moment small_lib (date (dated ''newer'' (Some ''2024-06-01''))) = Some 1717200000000"
    by (simp_all add: small_moment)
  have keys: "createReviewHash (dated ''older'' (Some ''2024-01-01''))
      \<noteq> createReviewHash (dated ''newer'' (Some ''13/02/2024''))"
    by (simp add: createReviewHash_def dated_def blank_review_def or_empty_def toLowerCase_def
        toLowerCase_char_def removeWhitespace_def isWhitespace_def as_option_def)
  have dedup: "removeDuplicates
      [dated ''older'' (Some ''2024-01-01''), dated ''newer'' (Some ''13/02/2024'')]
    = [dated ''older'' (Some ''2024-01-01''), dated ''newer'' (Some ''13/02/2024'')]"
    using keys by (simp add: removeDuplicates_def)
  have sorted: "Array_sort g (compareReviews small_lib)
      [dated ''older'' (Some ''2024-01-01''), dated ''newer'' (Some ''13/02/2024'')]
    = [dated ''older'' (Some ''2024-01-01''), dated ''newer'' (Some ''13/02/2024'')]" for g
    by (simp add: sort_eval small_moment)
  have d1: "parseDate small_lib (Str ''2024-01-01'') = Some ''2024-01-01''"
    by (simp add: parseDate_def date_formats_def truthy_def or_empty_def small_lib_def
        known_dates_def as_option_def)
  have d2: "parseDate small_lib (Str ''13/02/2024'') = Some ''2024-02-13''"
    by (simp add: parseDate_def date_formats_def truthy_def or_empty_def small_lib_def
        known_dates_def as_option_def)
  have c: "map date (finalReviews
        (small_env (fixed_scraper ''G2Scraper'' (Inr [])) (Inr ''output/slack_reviews.json''))
        [dated ''older'' (Some ''2024-01-01''), dated ''newer'' (Some ''13/02/2024'')])
      = [Str ''2024-01-01'', Str ''2024-02-13'']"
    unfolding finalReviews_def
    by (simp only: small_env_def env.simps dedup sorted)
      (simp add: createReviewObject_def d1 d2 dated_def blank_review_def or_null_def)
  from a b c show ?thesis by simp
qed

section \<open>Properties of the adapters\<close>

lemma ceil_div_ceiling:
  "0 < b \<Longrightarrow> ceil_div a b = \<lceil>(of_int a :: rat) / of_int b\<rceil>"
proof -
  have "\<lfloor>(of_int (- a) :: rat) / of_int b\<rfloor> = (- a) div b"
    by (simp only: floor_divide_of_int_eq)
  then show ?thesis by (simp add: ceil_div_def ceiling_def)
qed










lemma Capterra_pagination_call_skip:
  "\<not> (int (length (allReviews c)) < limit \<and> int (currentPage c) \<le> Capterra_maxPages limit)
     \<Longrightarrow> Capterra_pagination_call l web b s e limit c = Some c"
  by (subst Capterra_pagination_call.simps) auto





















section \<open>Properties of the blocking guard\<close>

lemma run_source_errors:
  "errors (stats (fst (run_source opts s st))) = errors (stats st)"
  by (auto simp: run_source_def Let_def split: sum.splits)

lemma startsWith_iff: "startsWith s k \<longleftrightarrow> (\<exists>post. s = k @ post)"
  by (induction s k rule: startsWith.induct) auto

lemma includes_str_iff: "includes_str s k \<longleftrightarrow> (\<exists>pre post. s = pre @ k @ post)"
proof (induction s)
  case Nil
  show ?case by simp
next
  case (Cons c cs)
  have "(\<exists>pre post. c # cs = pre @ k @ post)
      \<longleftrightarrow> (\<exists>post. c # cs = k @ post) \<or> (\<exists>pre post. cs = pre @ k @ post)"
  proof
    assume "\<exists>pre post. c # cs = pre @ k @ post"
    then obtain pre post where eq: "c # cs = pre @ k @ post" by blast
    show "(\<exists>post. c # cs = k @ post) \<or> (\<exists>pre post. cs = pre @ k @ post)"
    proof (cases pre)
      case Nil
      then show ?thesis using eq by auto
    next
      case (Cons p ps)
      then have "cs = ps @ k @ post" using eq by simp
      then show ?thesis by blast
    qed
  next
    assume "(\<exists>post. c # cs = k @ post) \<or> (\<exists>pre post. cs = pre @ k @ post)"
    then show "\<exists>pre post. c # cs = pre @ k @ post"
    proof
      assume "\<exists>post. c # cs = k @ post"
      then obtain post where "c # cs = [] @ k @ post" by auto
      then show ?thesis by blast
    next
      assume "\<exists>pre post. cs = pre @ k @ post"
      then obtain pre post where "c # cs = (c # pre) @ k @ post" by auto
      then show ?thesis by blast
    qed
  qed
  then show ?case using Cons.IH by (simp only: includes_str.simps startsWith_iff)
qed

lemma G2_scrapeReviews_not_Inl: "G2_scrapeReviews l web u s e limit \<noteq> Inl x"
  by (simp add: G2_scrapeReviews_def split: sum.splits)

lemma G2Scraper_no_exception:
  "snd (run_source opts (G2Scraper l web launched) st) = None"
  by (auto simp: run_source_def G2Scraper_def Let_def G2_scrapeReviews_not_Inl split: sum.splits)

text \<open>
  C7 (amended). A page counts as blocked exactly when its title, lower-cased, contains one
  of the seven keywords. In the G2 harvest the title is checked after the first load and
  after every pagination load. A match on the first load ends the harvest with no records
  and no further request; a match during pagination ends the loop at once, keeping the
  records accumulated so far, with no retry. The adapter logs the condition and returns
  normally, so processing the source adds nothing to the errors of the run statistics.
\<close>

theorem blocking_aborts_harvest:
  "(checkForBlocking (Some t)
      \<longleftrightarrow> (\<exists>k \<in> set blockingKeywords. \<exists>pre post. toLowerCase t = pre @ k @ post))
   \<and> (truthy url \<and> nav_ok (web 0 (or_empty url))
        \<and> checkForBlocking (page_title (web 0 (or_empty url)))
      \<longrightarrow> G2_scrapeReviews l web url startDate endDate limit = Inr []
          \<and> G2_requests l web url startDate endDate limit = [or_empty url])
   \<and> (int (length (allReviews c)) < limit \<and> int (currentPage c) \<le> G2_maxPages limit
        \<and> checkForBlocking
              (page_title (web (length (requested c)) (G2_pageUrl b (currentPage c))))
      \<longrightarrow> G2_pagination l web b startDate endDate limit c
            = c \<lparr> requested := requested c @ [G2_pageUrl b (currentPage c)] \<rparr>)
   \<and> errors (stats (process_scraper opts (G2Scraper l web launched) st)) = errors (stats st)"
proof -
  have 1: "checkForBlocking (Some t)
      \<longleftrightarrow> (\<exists>k \<in> set blockingKeywords. \<exists>pre post. toLowerCase t = pre @ k @ post)"
    by (simp add: checkForBlocking_def list_ex_iff includes_str_iff)
  have 2: "truthy url \<and> nav_ok (web 0 (or_empty url))
        \<and> checkForBlocking (page_title (web 0 (or_empty url)))
      \<longrightarrow> G2_scrapeReviews l web url startDate endDate limit = Inr []
          \<and> G2_requests l web url startDate endDate limit = [or_empty url]"
    by (simp add: G2_scrapeReviews_def G2_requests_def G2_scrapeReviews_try_def Let_def)
  have 3: "int (length (allReviews c)) < limit \<and> int (currentPage c) \<le> G2_maxPages limit
        \<and> checkForBlocking
              (page_title (web (length (requested c)) (G2_pageUrl b (currentPage c))))
      \<longrightarrow> G2_pagination l web b startDate endDate limit c
            = c \<lparr> requested := requested c @ [G2_pageUrl b (currentPage c)] \<rparr>"
    by (subst G2_pagination.simps) (simp add: Let_def)
  have 4: "errors (stats (process_scraper opts (G2Scraper l web launched) st)) = errors (stats st)"
    using G2Scraper_no_exception [of opts l web launched st]
      run_source_errors [of opts "G2Scraper l web launched" st]
    by (cases "run_source opts (G2Scraper l web launched) st") (simp add: process_scraper_def)
  from 1 2 3 4 show ?thesis by blast
qed

lemma slack_url:
  "G2_searchForCompany ''Slack'' = Some ''https://www.g2.com/products/slack/reviews''"
  by (simp add: G2_searchForCompany_def toLowerCase_def toLowerCase_char_def isWhitespace_def)

lemma denied_blocked: "checkForBlocking (page_title (denied k u))"
  by (simp add: denied_def empty_page_def checkForBlocking_def blockingKeywords_def
      toLowerCase_def toLowerCase_char_def)

text \<open>
  C7 (as stated). A run over G2 alone against a site whose every page is titled
  "Access Denied": the guard matches, the run collects nothing and fails, and the error
  list of the run statistics is empty.
\<close>

theorem blocking_not_in_statistics_counterexample:
  "checkForBlocking (page_title (denied 0 ''https://www.g2.com/products/slack/reviews''))
   \<and> scrape (small_env (G2Scraper small_lib denied True) (Inr ''output/slack_reviews.json''))
        slack_options = (False, initial_stats)
   \<and> errors initial_stats = []"
proof -
  have harvest: "G2_scrapeReviews small_lib denied
      (Some ''https://www.g2.com/products/slack/reviews'') None None 10 = Inr []"
    using denied_blocked [of 0 "''https://www.g2.com/products/slack/reviews''"]
    by (simp add: G2_scrapeReviews_def G2_scrapeReviews_try_def Let_def truthy_def or_empty_def
        denied_def empty_page_def)
  have valid: "validateOptions small_lib slack_options"
    by (simp add: validateOptions_def slack_options_def truthy_def validSources_def
        toLowerCase_def toLowerCase_char_def)
  have src: "createScrapers
      (small_env (G2Scraper small_lib denied True) (Inr ''output/slack_reviews.json''))
      (opt_source slack_options) = [G2Scraper small_lib denied True]"
    by (simp add: createScrapers_def slack_options_def small_env_def toLowerCase_def
        toLowerCase_char_def)
  have run: "run_source slack_options (G2Scraper small_lib denied True)
      \<lparr> collected = [], stats = initial_stats \<rparr>
      = (\<lparr> collected = [], stats = initial_stats \<rparr>, None)"
    using harvest
    by (simp add: run_source_def G2Scraper_def slack_options_def slack_url truthy_def or_empty_def)
  show ?thesis
    using valid src run denied_blocked
    by (simp add: scrape_def process_scraper_def small_env_def initial_stats_def)
qed

text \<open>
  Witness for C7: a title with the keyword 403, and the "Access Denied" site on the first load
  and on a pagination load with six records already accumulated.
\<close>

theorem blocking_aborts_harvest_witness:
  "checkForBlocking (Some ''Error 403 - Forbidden'')
   \<and> G2_scrapeReviews small_lib denied (Some ''https://www.g2.com/products/slack/reviews'')
        None None 10 = Inr []
   \<and> G2_requests small_lib denied (Some ''https://www.g2.com/products/slack/reviews'')
        None None 10 = [''https://www.g2.com/products/slack/reviews'']
   \<and> G2_pagination small_lib denied ''https://www.g2.com/products/slack/reviews'' None None 10
        \<lparr> allReviews = six_a, currentPage = 1,
          requested = [''https://www.g2.com/products/slack/reviews''] \<rparr>
      = \<lparr> allReviews = six_a, currentPage = 1,
          requested = [''https://www.g2.com/products/slack/reviews'',
                       ''https://www.g2.com/products/slack/reviews''] \<rparr>
   \<and> errors (stats (process_scraper slack_options (G2Scraper small_lib denied True)
        \<lparr> collected = [], stats = initial_stats \<rparr>)) = []"
proof -
  have kw: "\<exists>k \<in> set blockingKeywords. \<exists>pre post.
      toLowerCase ''Error 403 - Forbidden'' = pre @ k @ post"
  proof -
    have "''403'' \<in> set blockingKeywords" by (simp add: blockingKeywords_def)
    moreover have "toLowerCase ''Error 403 - Forbidden'' = ''error '' @ ''403'' @ '' - forbidden''"
      by (simp add: toLowerCase_def toLowerCase_char_def)
    ultimately show ?thesis by blast
  qed
  have len: "length six_a = 6" by (simp add: six_a_def)
  show ?thesis
    using kw len denied_blocked
      blocking_aborts_harvest [where t = "''Error 403 - Forbidden''"
        and url = "Some ''https://www.g2.com/products/slack/reviews''"
        and web = denied and l = small_lib and startDate = None and endDate = None
        and limit = 10 and b = "''https://www.g2.com/products/slack/reviews''"
        and c = "\<lparr> allReviews = six_a, currentPage = 1,
                  requested = [''https://www.g2.com/products/slack/reviews''] \<rparr>"
        and opts = slack_options and launched = True
        and st = "\<lparr> collected = [], stats = initial_stats \<rparr>"]
    by (simp add: truthy_def or_empty_def G2_maxPages_def ceil_div_def G2_pageUrl_def
        initial_stats_def denied_def empty_page_def)
qed

section \<open>Properties of the orchestrator\<close>

lemma run_source_collected:
  "collected (fst (run_source opts s st)) = collected st @ contribution opts s"
  by (auto simp: contribution_def run_source_def Let_def split: sum.splits)

lemma run_source_exception:
  "snd (run_source opts s st) = snd (run_source opts s st')"
  by (auto simp: run_source_def Let_def split: sum.splits)

lemma process_scraper_collected:
  "collected (process_scraper opts s st) = collected st @ contribution opts s"
  using run_source_collected [of opts s st]
  by (cases "run_source opts s st") (auto simp: process_scraper_def split: option.splits)

lemma process_scraper_errors:
  "errors (stats (process_scraper opts s st)) =
     errors (stats st) @
       (case snd (run_source opts s st) of None \<Rightarrow> [] | Some e \<Rightarrow> [(constructor_name s, e)])"
  using run_source_errors [of opts s st]
  by (cases "run_source opts s st") (auto simp: process_scraper_def split: option.splits)

lemma run_scrapers_append:
  "run_scrapers opts (xs @ ys) st = run_scrapers opts ys (run_scrapers opts xs st)"
  by (induction xs arbitrary: st) auto

lemma run_scrapers_collected:
  "collected (run_scrapers opts ss st) = collected st @ concat (map (contribution opts) ss)"
  by (induction ss arbitrary: st) (auto simp: process_scraper_collected)

lemma run_scrapers_errors_mono:
  "set (errors (stats st)) \<subseteq> set (errors (stats (run_scrapers opts ss st)))"
proof (induction ss arbitrary: st)
  case Nil
  show ?case by simp
next
  case (Cons s ss)
  have "set (errors (stats st)) \<subseteq> set (errors (stats (process_scraper opts s st)))"
    by (simp add: process_scraper_errors)
  then show ?case using Cons.IH [of "process_scraper opts s st"] by auto
qed

text \<open>
  The \<^verbatim>\<open>catch\<close> of the loop, for any scraper object: when processing a source throws,
  the exception is recorded in the errors of the run statistics under the scraper's
  constructor name, the sources after it are processed from the state reached, and every
  record they contribute is in the merged list at the end.
\<close>

lemma run_scrapers_exception:
  assumes "snd (run_source opts s (run_scrapers opts pre st)) = Some msg"
  shows "run_scrapers opts (pre @ s # post) st
           = run_scrapers opts post (process_scraper opts s (run_scrapers opts pre st))
    \<and> (constructor_name s, msg) \<in> set (errors (stats (run_scrapers opts (pre @ s # post) st)))
    \<and> collected (run_scrapers opts (pre @ s # post) st)
        = collected st @ concat (map (contribution opts) (pre @ s # post))"
proof -
  let ?mid = "process_scraper opts s (run_scrapers opts pre st)"
  have 1: "run_scrapers opts (pre @ s # post) st = run_scrapers opts post ?mid"
    by (simp add: run_scrapers_append)
  have "(constructor_name s, msg) \<in> set (errors (stats ?mid))"
    using assms by (simp add: process_scraper_errors)
  then have 2: "(constructor_name s, msg)
      \<in> set (errors (stats (run_scrapers opts (pre @ s # post) st)))"
    using run_scrapers_errors_mono [of ?mid opts post] 1 by auto
  have 3: "collected (run_scrapers opts (pre @ s # post) st)
        = collected st @ concat (map (contribution opts) (pre @ s # post))"
    by (rule run_scrapers_collected)
  from 1 2 3 show ?thesis by blast
qed
























end
